theory Spec2Isabelle
  imports Main "HOL-Library.Sublist" "HOL-Library.AList"
    "HOL-Library.Char_ord" "HOL-Library.List_Lexorder"
begin

section \<open>Strings and paths\<close>

text \<open>
  Python strings are modelled as \<^typ>\<open>string\<close>; the model covers ASCII text, so
  \<open>str.lower\<close> maps \<open>A\<close>--\<open>Z\<close> to \<open>a\<close>--\<open>z\<close> and leaves every other character
  alone, and the class \<open>\w\<close> is letters, digits and the underscore.
\<close>

definition lower_char :: "char \<Rightarrow> char" where
  "lower_char c =
     (case map_of (zip ''ABCDEFGHIJKLMNOPQRSTUVWXYZ'' ''abcdefghijklmnopqrstuvwxyz'') c of
        Some d \<Rightarrow> d
      | None \<Rightarrow> c)"

definition lower :: "string \<Rightarrow> string" where
  "lower s = map lower_char s"

definition is_word_char :: "char \<Rightarrow> bool" where
  "is_word_char c =
     (let n = (of_char c :: nat)
      in (48 \<le> n \<and> n \<le> 57) \<or> (65 \<le> n \<and> n \<le> 90) \<or> n = 95 \<or> (97 \<le> n \<and> n \<le> 122))"

text \<open>\<open>re.findall(r'\w+', s)\<close>: the maximal runs of word characters, left to right.
  The first argument is the run being read.\<close>

fun findall_w :: "string \<Rightarrow> string \<Rightarrow> string list" where
  "findall_w cur [] = (if cur = [] then [] else [cur])"
| "findall_w cur (c # cs) =
     (if is_word_char c then findall_w (cur @ [c]) cs
      else (if cur = [] then [] else [cur]) @ findall_w [] cs)"

definition re_findall_w :: "string \<Rightarrow> string list" where
  "re_findall_w s = findall_w [] s"

text \<open>Python's \<open>sub in s\<close> on strings: \<open>sub\<close> occurs in \<open>s\<close> as a contiguous run.\<close>

primrec py_in :: "string \<Rightarrow> string \<Rightarrow> bool" where
  "py_in sub [] = (sub = [])"
| "py_in sub (c # cs) = (prefix sub (c # cs) \<or> py_in sub cs)"

text \<open>\<open>s.endswith(suffix)\<close> and \<open>s.startswith(p)\<close>.\<close>

definition endswith :: "string \<Rightarrow> string \<Rightarrow> bool" where
  "endswith s suf = (length suf \<le> length s \<and> drop (length s - length suf) s = suf)"

definition startswith :: "string \<Rightarrow> string \<Rightarrow> bool" where
  "startswith s p = (take (length p) s = p)"

text \<open>\<open>os.path\<close> on POSIX: \<open>join\<close> of two components, \<open>basename\<close> (what follows the
  last slash) and \<open>dirname\<close> (what precedes it, without trailing slashes unless it is
  made of slashes only).\<close>

definition join :: "string \<Rightarrow> string \<Rightarrow> string" where
  "join a b =
     (if startswith b ''/'' then b
      else if a = [] \<or> endswith a ''/'' then a @ b
      else a @ ''/'' @ b)"

definition basename :: "string \<Rightarrow> string" where
  "basename p = rev (takeWhile (\<lambda>c. c \<noteq> CHR ''/'') (rev p))"

definition dirname :: "string \<Rightarrow> string" where
  "dirname p =
     (let hd_part = rev (dropWhile (\<lambda>c. c \<noteq> CHR ''/'') (rev p))
      in if hd_part \<noteq> [] \<and> hd_part \<noteq> replicate (length hd_part) CHR ''/''
         then rev (dropWhile (\<lambda>c. c = CHR ''/'') (rev hd_part))
         else hd_part)"

section \<open>The file system and the library\<close>

text \<open>
  The file system is an input of every operation. A directory is the list of its file
  names and of its subdirectories, in the order \<open>os.scandir\<close> reports them. \<open>os.stat\<close>,
  \<open>open\<close> and the lookup of a root path are functions of the path that may fail
  (\<open>None\<close> stands for \<open>OSError\<close>); nothing ties them to the directory listing, as a file
  can vanish between the listing and the call. \<open>fs_bytes\<close> is what a file opened in
  binary mode holds and \<open>fs_text\<close> what the same file yields when it is read as text
  (decoded, with line ends translated to \<open>\n\<close>). Time stamps are integers.
\<close>

datatype dirtree = Dir (dir_files: "string list") (dir_subdirs: "(string \<times> dirtree) list")

datatype entry = Missing | Regular | Directory dirtree

record stat_result =
  st_size :: int
  st_mtime :: int

record filesystem =
  fs_lookup :: "string \<Rightarrow> entry"
  fs_stat :: "string \<Rightarrow> stat_result option"
  fs_bytes :: "string \<Rightarrow> string option"
  fs_text :: "string \<Rightarrow> string option"

definition exists_path :: "filesystem \<Rightarrow> string \<Rightarrow> bool" where
  "exists_path fs p = (fs_lookup fs p \<noteq> Missing)"

definition isdir :: "filesystem \<Rightarrow> string \<Rightarrow> bool" where
  "isdir fs p = (case fs_lookup fs p of Directory t \<Rightarrow> True | _ \<Rightarrow> False)"

definition getmtime :: "filesystem \<Rightarrow> string \<Rightarrow> int option" where
  "getmtime fs p = map_option st_mtime (fs_stat fs p)"

text \<open>
  \<open>os.walk\<close>, top down: the triple of a directory, then the walks of its subdirectories.
  Every loop of the engine either leaves \<open>dirs\<close> as it is or assigns
  \<open>dirs[:] = [d for d in dirs if keep d]\<close> before the generator resumes, so the walk
  descends into the kept subdirectories only; \<open>keep\<close> is that filter. The triple still
  carries the unfiltered names, as the loop body receives them.
\<close>

fun os_walk ::
  "(string \<Rightarrow> bool) \<Rightarrow> string \<Rightarrow> dirtree \<Rightarrow> (string \<times> string list \<times> string list) list" where
  "os_walk keep dirpath (Dir fnames subs) =
     (dirpath, map fst subs, fnames) #
     concat (map (\<lambda>(d, t). os_walk keep (join dirpath d) t) (filter (\<lambda>(d, t). keep d) subs))"

definition walk ::
  "filesystem \<Rightarrow> (string \<Rightarrow> bool) \<Rightarrow> string \<Rightarrow> (string \<times> string list \<times> string list) list" where
  "walk fs keep root_path =
     (case fs_lookup fs root_path of Directory t \<Rightarrow> os_walk keep root_path t | _ \<Rightarrow> [])"

definition not_hidden :: "string \<Rightarrow> bool" where
  "not_hidden d = (\<not> startswith d ''.'')"

text \<open>
  Exceptions are values. \<open>OSError\<close> stands for the class and its subclasses
  (\<open>PermissionError\<close>, \<open>FileNotFoundError\<close>), \<open>ReError\<close> for \<open>re.error\<close>; each carries
  its message, which \<open>error_str\<close> returns as \<open>str(e)\<close> does.
\<close>

datatype error =
  OSError string | ReError string | ValueError string | OverflowError string | SearchError string

fun error_str :: "error \<Rightarrow> string" where
  "error_str (OSError m) = m"
| "error_str (ReError m) = m"
| "error_str (ValueError m) = m"
| "error_str (OverflowError m) = m"
| "error_str (SearchError m) = m"

fun is_OSError :: "error \<Rightarrow> bool" where
  "is_OSError (OSError m) = True"
| "is_OSError e = False"

fun is_ReError :: "error \<Rightarrow> bool" where
  "is_ReError (ReError m) = True"
| "is_ReError e = False"

text \<open>
  The standard library is a parameter: \<open>fnmatch.fnmatch name pattern\<close>;
  \<open>re.search pattern string\<close>, which tells whether a match was found or raises
  (\<open>re.error\<close> for a pattern that does not compile, or another exception such as
  \<open>OverflowError\<close>); \<open>datetime.fromtimestamp\<close>, which gives a \<open>datetime\<close> (a number
  of its own scale) or raises for a time stamp it cannot represent; and the order in
  which a set is iterated.
\<close>

record pylib =
  fnmatch :: "string \<Rightarrow> string \<Rightarrow> bool"
  re_search :: "string \<Rightarrow> string \<Rightarrow> error + bool"
  fromtimestamp :: "int \<Rightarrow> error + int"
  set_iter :: "string set \<Rightarrow> string list"

section \<open>SearchIndex\<close>

text \<open>
  \<open>self.index\<close> is a dictionary from word to set of paths: an association list in
  insertion order, as a Python dictionary iterates. \<open>self.file_timestamps\<close> is only
  looked up and stored into: a map.
\<close>

record SearchIndex =
  index :: "(string \<times> string set) list"
  file_timestamps :: "string \<rightharpoonup> int"

definition SearchIndex_init :: SearchIndex where
  "SearchIndex_init = \<lparr>index = [], file_timestamps = Map.empty\<rparr>"

definition is_indexed :: "filesystem \<Rightarrow> SearchIndex \<Rightarrow> string \<Rightarrow> bool" where
  "is_indexed fs ix file_path =
     (case file_timestamps ix file_path of
        None \<Rightarrow> False
      | Some recorded \<Rightarrow>
          (case getmtime fs file_path of
             None \<Rightarrow> False
           | Some current_mtime \<Rightarrow> recorded \<ge> current_mtime))"

text \<open>One round of the loop of \<open>add_file\<close>: create the posting set if the word is
  new, then add the path to it.\<close>

definition add_word :: "string \<Rightarrow> string \<Rightarrow> (string \<times> string set) list \<Rightarrow> (string \<times> string set) list" where
  "add_word file_path word d =
     AList.map_entry word (insert file_path)
       (if map_of d word = None then d @ [(word, {})] else d)"

text \<open>\<open>getmtime\<close> is called after the loop, so a failure there is caught with the
  words already stored and no time stamp recorded.\<close>

definition add_file :: "filesystem \<Rightarrow> SearchIndex \<Rightarrow> string \<Rightarrow> SearchIndex" where
  "add_file fs ix file_path =
     (let filename = lower (basename file_path);
          words = re_findall_w filename;
          d = fold (add_word file_path) words (index ix)
      in case getmtime fs file_path of
           None \<Rightarrow> ix\<lparr>index := d\<rparr>
         | Some mtime \<Rightarrow> ix\<lparr>index := d, file_timestamps := (file_timestamps ix)(file_path \<mapsto> mtime)\<rparr>)"

text \<open>The inner loop of \<open>search\<close> over the indexed words, for one query word.\<close>

definition word_matches :: "(string \<times> string set) list \<Rightarrow> string \<Rightarrow> string set" where
  "word_matches d word =
     fold (\<lambda>(indexed_word, paths) matches.
             if py_in word indexed_word then matches \<union> paths else matches) d {}"

text \<open>\<open>set.intersection( *result_sets)\<close>; the caller passes a non-empty list.\<close>

fun set_intersection :: "string set list \<Rightarrow> string set" where
  "set_intersection [] = {}"
| "set_intersection (s # ss) = fold (\<lambda>t acc. acc \<inter> t) ss s"

definition search :: "SearchIndex \<Rightarrow> string \<Rightarrow> string set" where
  "search ix query =
     (let query_words = re_findall_w (lower query)
      in if query_words = [] then {}
         else (let result_sets = map (word_matches (index ix)) query_words
               in if result_sets \<noteq> [] then set_intersection result_sets else {}))"

section \<open>SearchEngine: data\<close>

record SearchResult =
  path :: string
  name :: string
  size_f :: int
  modified :: int
  directory :: string
  match_type :: string
  match_line :: "string option"
  match_line_number :: "int option"

text \<open>The dictionary that \<open>search_files\<close> appends to the history.\<close>

record search_info =
  h_pattern :: string
  h_content_search :: "string option"
  h_timestamp :: int
  h_root_path :: string
  h_file_type :: "string option"

text \<open>
  The arguments of \<open>search_files\<close> after the root path, under their own names;
  \<open>progress_callback\<close> tells whether a callback was passed. \<open>default_criteria\<close> holds
  the default of every argument.
\<close>

record criteria =
  pattern :: string
  content_search :: "string option"
  file_type :: "string option"
  size_min :: "int option"
  size_max :: "int option"
  date_from :: "int option"
  date_to :: "int option"
  case_sensitive :: bool
  regex :: bool
  max_results :: int
  use_index :: bool
  progress_callback :: bool

definition default_criteria :: criteria where
  "default_criteria =
     \<lparr>pattern = ''*'', content_search = None, file_type = None, size_min = None,
      size_max = None, date_from = None, date_to = None, case_sensitive = False,
      regex = False, max_results = 1000, use_index = True, progress_callback = False\<rparr>"

text \<open>
  The engine. \<open>search_index\<close> is \<open>self.index\<close> and \<open>cancel_event\<close> is the flag of
  \<open>self._cancel_event\<close>. Two fields stand for the engine's surroundings:
  \<open>pending_cancel = Some n\<close> says that another thread calls \<open>cancel_search\<close> after \<open>n\<close>
  more polls of the flag, and \<open>progress_log\<close> collects, for every call of the progress
  callback, its two arguments and the search history that the callback finds in the
  engine at that moment.
\<close>

record SearchEngine =
  search_history :: "search_info list"
  max_history :: int
  cancel_event :: bool
  search_index :: SearchIndex
  max_workers :: int
  chunk_size :: int
  max_file_size_for_content_search :: int
  indexing_enabled :: bool
  pending_cancel :: "nat option"
  progress_log :: "(int \<times> int \<times> search_info list) list"

definition SearchEngine_init :: SearchEngine where
  "SearchEngine_init =
     \<lparr>search_history = [], max_history = 50, cancel_event = False,
      search_index = SearchIndex_init, max_workers = 4, chunk_size = 8192,
      max_file_size_for_content_search = 10 * 1024 * 1024, indexing_enabled = True,
      pending_cancel = None, progress_log = []\<rparr>"

definition cancel_search :: "SearchEngine \<Rightarrow> SearchEngine" where
  "cancel_search s = s\<lparr>cancel_event := True\<rparr>"

text \<open>\<open>self._cancel_event.is_set()\<close>: one poll of the flag.\<close>

definition is_set :: "SearchEngine \<Rightarrow> bool \<times> SearchEngine" where
  "is_set s =
     (case pending_cancel s of
        None \<Rightarrow> (cancel_event s, s)
      | Some 0 \<Rightarrow> (True, s\<lparr>cancel_event := True, pending_cancel := None\<rparr>)
      | Some (Suc n) \<Rightarrow> (cancel_event s, s\<lparr>pending_cancel := Some n\<rparr>))"

definition call_progress :: "bool \<Rightarrow> int \<Rightarrow> int \<Rightarrow> SearchEngine \<Rightarrow> SearchEngine" where
  "call_progress due done_count total_count s =
     (if due
      then s\<lparr>progress_log := progress_log s @ [(done_count, total_count, search_history s)]\<rparr>
      else s)"

definition add_to_history :: "SearchEngine \<Rightarrow> search_info \<Rightarrow> SearchEngine" where
  "add_to_history s info =
     (let h = search_history s @ [info]
      in s\<lparr>search_history := (if int (length h) > max_history s then tl h else h)\<rparr>)"

definition get_search_history :: "SearchEngine \<Rightarrow> search_info list" where
  "get_search_history s = search_history s"

definition clear_history :: "SearchEngine \<Rightarrow> SearchEngine" where
  "clear_history s = s\<lparr>search_history := []\<rparr>"

definition clear_index :: "SearchEngine \<Rightarrow> SearchEngine" where
  "clear_index s = s\<lparr>search_index := SearchIndex_init\<rparr>"

section \<open>SearchEngine: matching one file\<close>

text \<open>\<open>_match_pattern\<close> catches \<open>re.error\<close> only; any other exception of
  \<open>re.search\<close> leaves the function.\<close>

definition match_pattern :: "pylib \<Rightarrow> string \<Rightarrow> string \<Rightarrow> bool \<Rightarrow> bool \<Rightarrow> error + bool" where
  "match_pattern lib filename pat case_sens is_regex =
     (let filename' = (if \<not> case_sens then lower filename else filename);
          pat' = (if \<not> case_sens then lower pat else pat)
      in if is_regex
         then (case re_search lib pat' filename' of
                 Inl e \<Rightarrow> if is_ReError e then Inr False else Inl e
               | Inr found \<Rightarrow> Inr found)
         else Inr (fnmatch lib filename' pat'))"

text \<open>\<open>Path(file_path).suffix\<close>: from the last dot of the base name, unless that dot is
  its first or its last character.\<close>

definition path_suffix :: "string \<Rightarrow> string" where
  "path_suffix file_path =
     (let nm = basename file_path;
          ext = rev (takeWhile (\<lambda>c. c \<noteq> CHR ''.'') (rev nm))
      in if CHR ''.'' \<in> set nm \<and> ext \<noteq> [] \<and> length ext + 1 < length nm
         then CHR ''.'' # ext else [])"

definition text_extensions :: "string list" where
  "text_extensions =
     [''.txt'', ''.py'', ''.js'', ''.html'', ''.css'', ''.json'', ''.xml'', ''.md'', ''.csv'',
      ''.log'', ''.ini'', ''.cfg'', ''.conf'', ''.yaml'', ''.yml'', ''.sql'', ''.sh'', ''.bat'',
      ''.c'', ''.cpp'', ''.h'', ''.java'', ''.php'', ''.rb'', ''.go'', ''.rs'', ''.kt'', ''.swift'']"

definition printable_byte :: "char \<Rightarrow> bool" where
  "printable_byte b =
     (let n = (of_char b :: nat) in (32 \<le> n \<and> n \<le> 126) \<or> n = 9 \<or> n = 10 \<or> n = 13)"

text \<open>The ratio test \<open>printable_count / len(chunk) > 0.7\<close> is written without
  division; for at most 1024 bytes the two agree.\<close>

definition is_text_file :: "filesystem \<Rightarrow> string \<Rightarrow> bool" where
  "is_text_file fs file_path =
     (if lower (path_suffix file_path) \<in> set text_extensions then True
      else (case fs_bytes fs file_path of
              None \<Rightarrow> False
            | Some content \<Rightarrow>
                (let chunk = take 1024 content
                 in if chunk = [] then True
                    else if CHR 0x00 \<in> set chunk then False
                    else (let printable_count = length (filter printable_byte chunk)
                          in 10 * printable_count > 7 * length chunk))))"

text \<open>\<open>s.split('\n')\<close>, \<open>s.strip()\<close> and \<open>f.read(n)\<close> on what is left of the file.\<close>

fun split_acc :: "string \<Rightarrow> string \<Rightarrow> string list" where
  "split_acc cur [] = [cur]"
| "split_acc cur (c # cs) =
     (if c = CHR 0x0A then cur # split_acc [] cs else split_acc (cur @ [c]) cs)"

definition split_nl :: "string \<Rightarrow> string list" where
  "split_nl s = split_acc [] s"

definition is_space :: "char \<Rightarrow> bool" where
  "is_space c = (let n = (of_char c :: nat) in (9 \<le> n \<and> n \<le> 13) \<or> (28 \<le> n \<and> n \<le> 32))"

definition strip :: "string \<Rightarrow> string" where
  "strip s = rev (dropWhile is_space (rev (dropWhile is_space s)))"

definition f_read :: "int \<Rightarrow> string \<Rightarrow> string" where
  "f_read n remaining = (if n < 0 then remaining else take (nat n) remaining)"

text \<open>The loop over the complete lines of one chunk: the match that is returned, or
  the line number reached.\<close>

fun scan_lines ::
  "string \<Rightarrow> bool \<Rightarrow> string list \<Rightarrow> int \<Rightarrow> (string option \<times> int option) + int" where
  "scan_lines search_text case_sens [] line_num = Inr line_num"
| "scan_lines search_text case_sens (line # rest) line_num =
     (let line_num' = line_num + 1;
          search_line = (if \<not> case_sens then lower line else line)
      in if py_in search_text search_line
         then Inl (Some (take 200 (strip line)), Some line_num')
         else scan_lines search_text case_sens rest line_num')"

text \<open>The \<open>while True\<close> loop over the chunks, with the check of the last line after
  it. \<open>remaining\<close> is the part of the file not yet read.\<close>

function read_loop ::
  "int \<Rightarrow> string \<Rightarrow> bool \<Rightarrow> string \<Rightarrow> string \<Rightarrow> int \<Rightarrow> string option \<times> int option" where
  "read_loop csize search_text case_sens remaining buffer line_num =
     (if f_read csize remaining = []
      then (if buffer \<noteq> []
            then (if py_in search_text (if \<not> case_sens then lower buffer else buffer)
                  then (Some (take 200 (strip buffer)), Some (line_num + 1))
                  else (None, None))
            else (None, None))
      else (case scan_lines search_text case_sens
                   (butlast (split_nl (buffer @ f_read csize remaining))) line_num of
              Inl found \<Rightarrow> found
            | Inr line_num' \<Rightarrow>
                read_loop csize search_text case_sens
                  (drop (length (f_read csize remaining)) remaining)
                  (last (split_nl (buffer @ f_read csize remaining))) line_num'))"
  by pat_completeness auto
termination
  by (relation "measure (\<lambda>(csize, search_text, case_sens, remaining, buffer, line_num). length remaining)")
     (auto simp: f_read_def split: if_splits)

declare read_loop.simps [simp del]

definition search_in_file_optimized ::
  "filesystem \<Rightarrow> SearchEngine \<Rightarrow> string \<Rightarrow> string \<Rightarrow> bool \<Rightarrow> string option \<times> int option" where
  "search_in_file_optimized fs s file_path search_text case_sens =
     (if \<not> is_text_file fs file_path then (None, None)
      else (let search_text' = (if \<not> case_sens then lower search_text else search_text)
            in case fs_text fs file_path of
                 None \<Rightarrow> (None, None)
               | Some content \<Rightarrow> read_loop (chunk_size s) search_text' case_sens content [] 0))"

text \<open>
  \<open>_process_file\<close> returns whether the file was accepted, with the result list after
  the call, or raises: \<open>OSError\<close> from \<open>os.stat\<close>, whatever \<open>_match_pattern\<close> lets
  through, and the exception of \<open>datetime.fromtimestamp\<close>. A condition
  \<open>if x and ...\<close> on an optional argument is false for \<open>None\<close>, for the empty string
  and for the number zero. \<open>make_result\<close> is the \<open>SearchResult\<close> that is built from the
  path, its \<open>stat\<close> and the date; \<open>content_block\<close> is the part of the function from the
  comment \<open># Content search\<close> to its end.
\<close>

definition make_result ::
  "string \<Rightarrow> stat_result \<Rightarrow> int \<Rightarrow> string \<Rightarrow> string option \<Rightarrow> int option \<Rightarrow> SearchResult" where
  "make_result file_path st file_date mt content_match content_line_num =
     \<lparr>path = file_path, name = basename file_path, size_f = st_size st,
      modified = file_date, directory = dirname file_path, match_type = mt,
      match_line = content_match, match_line_number = content_line_num\<rparr>"

definition content_block ::
  "pylib \<Rightarrow> filesystem \<Rightarrow> SearchEngine \<Rightarrow> string \<Rightarrow> criteria \<Rightarrow> stat_result \<Rightarrow> int
     \<Rightarrow> SearchResult list \<Rightarrow> error + (bool \<times> SearchResult list)" where
  "content_block lib fs s file_path q st file_date results =
     (case content_search q of
        None \<Rightarrow> Inr (True, results @ [make_result file_path st file_date ''filename'' None None])
      | Some ct \<Rightarrow>
          if ct = []
          then Inr (True, results @ [make_result file_path st file_date ''filename'' None None])
          else if st_size st > max_file_size_for_content_search s
          then Inr (True, results @ [make_result file_path st file_date ''filename'' None None])
          else (case search_in_file_optimized fs s file_path ct (case_sensitive q) of
                  (content_match, content_line_num) \<Rightarrow>
                    if content_match \<noteq> None \<and> content_match \<noteq> Some []
                    then Inr (True, results @
                            [make_result file_path st file_date ''content'' content_match
                               content_line_num])
                    else (case match_pattern lib (basename file_path) ct
                                 (case_sensitive q) (regex q) of
                            Inl e \<Rightarrow> Inl e
                          | Inr matched \<Rightarrow>
                              if \<not> matched then Inr (False, results)
                              else Inr (True, results @
                                     [make_result file_path st file_date ''filename''
                                        content_match content_line_num]))))"

definition process_file ::
  "pylib \<Rightarrow> filesystem \<Rightarrow> SearchEngine \<Rightarrow> string \<Rightarrow> criteria \<Rightarrow> SearchResult list
     \<Rightarrow> error + (bool \<times> SearchResult list)" where
  "process_file lib fs s file_path q results =
     (let filename = basename file_path
      in case match_pattern lib filename (pattern q) (case_sensitive q) (regex q) of
           Inl e \<Rightarrow> Inl e
         | Inr matched \<Rightarrow>
             if \<not> matched then Inr (False, results)
             else if (case file_type q of None \<Rightarrow> False
                      | Some ft \<Rightarrow> ft \<noteq> [] \<and> \<not> endswith (lower filename) (lower ft))
             then Inr (False, results)
             else (case fs_stat fs file_path of
                     None \<Rightarrow> Inl (OSError file_path)
                   | Some st \<Rightarrow>
                       if (case size_min q of None \<Rightarrow> False
                           | Some m \<Rightarrow> m \<noteq> 0 \<and> st_size st < m)
                       then Inr (False, results)
                       else if (case size_max q of None \<Rightarrow> False
                                | Some m \<Rightarrow> m \<noteq> 0 \<and> st_size st > m)
                       then Inr (False, results)
                       else (case fromtimestamp lib (st_mtime st) of
                               Inl e \<Rightarrow> Inl e
                             | Inr file_date \<Rightarrow>
                                 if (case date_from q of None \<Rightarrow> False
                                     | Some d \<Rightarrow> file_date < d)
                                 then Inr (False, results)
                                 else if (case date_to q of None \<Rightarrow> False
                                          | Some d \<Rightarrow> file_date > d)
                                 then Inr (False, results)
                                 else content_block lib fs s file_path q st file_date results)))"

text \<open>\<open>_matches_criteria\<close>: the body of its \<open>try\<close>, and the function, whose
  \<open>except OSError\<close> answers \<open>False\<close> and lets every other exception through.\<close>

definition matches_criteria_try :: "pylib \<Rightarrow> filesystem \<Rightarrow> string \<Rightarrow> criteria \<Rightarrow> error + bool" where
  "matches_criteria_try lib fs file_path q =
     (let filename = basename file_path
      in case match_pattern lib filename (pattern q) (case_sensitive q) (regex q) of
           Inl e \<Rightarrow> Inl e
         | Inr matched \<Rightarrow>
             if \<not> matched then Inr False
             else if (case file_type q of None \<Rightarrow> False
                      | Some ft \<Rightarrow> ft \<noteq> [] \<and> \<not> endswith (lower filename) (lower ft))
             then Inr False
             else (case fs_stat fs file_path of
                     None \<Rightarrow> Inl (OSError file_path)
                   | Some st \<Rightarrow>
                       if (case size_min q of None \<Rightarrow> False
                           | Some m \<Rightarrow> m \<noteq> 0 \<and> st_size st < m)
                       then Inr False
                       else if (case size_max q of None \<Rightarrow> False
                                | Some m \<Rightarrow> m \<noteq> 0 \<and> st_size st > m)
                       then Inr False
                       else (case fromtimestamp lib (st_mtime st) of
                               Inl e \<Rightarrow> Inl e
                             | Inr file_date \<Rightarrow>
                                 if (case date_from q of None \<Rightarrow> False
                                     | Some d \<Rightarrow> file_date < d)
                                 then Inr False
                                 else if (case date_to q of None \<Rightarrow> False
                                          | Some d \<Rightarrow> file_date > d)
                                 then Inr False
                                 else Inr True)))"

definition matches_criteria :: "pylib \<Rightarrow> filesystem \<Rightarrow> string \<Rightarrow> criteria \<Rightarrow> error + bool" where
  "matches_criteria lib fs file_path q =
     (case matches_criteria_try lib fs file_path q of
        Inl e \<Rightarrow> if is_OSError e then Inr False else Inl e
      | Inr answer \<Rightarrow> Inr answer)"

section \<open>SearchEngine: the two strategies\<close>

definition enumerate :: "'a list \<Rightarrow> (int \<times> 'a) list" where
  "enumerate xs = zip (map int [0..<length xs]) xs"

text \<open>
  The loops of \<open>_search_filesystem\<close>. The state of the loops is the engine, the result
  list and \<open>search_count\<close>; a loop returns it together with the exception that left the
  loop, if any. A loop that meets its \<open>break\<close> returns the state it has. \<open>file_body\<close> is
  the body of the inner loop after the test of its \<open>break\<close>: its
  \<open>except (OSError, PermissionError)\<close> goes on to the next file, and any other
  exception leaves the loops.
\<close>

fun file_body ::
  "pylib \<Rightarrow> filesystem \<Rightarrow> criteria \<Rightarrow> string \<Rightarrow> int \<Rightarrow> string
     \<Rightarrow> SearchEngine \<times> SearchResult list \<times> int
     \<Rightarrow> error option \<times> SearchEngine \<times> SearchResult list \<times> int" where
  "file_body lib fs q dirpath total_files file (s, results, search_count) =
     (let file_path = join dirpath file;
          search_count' = search_count + 1;
          s2 = call_progress (progress_callback q \<and> search_count' mod 50 = 0)
                 search_count' total_files s
      in case process_file lib fs s2 file_path q results of
           Inl e \<Rightarrow> (if is_OSError e then None else Some e, s2, results, search_count')
         | Inr (accepted, results') \<Rightarrow>
             (None,
              if accepted \<and> indexing_enabled s2
              then s2\<lparr>search_index := add_file fs (search_index s2) file_path\<rparr>
              else s2,
              results', search_count'))"

fun files_loop ::
  "pylib \<Rightarrow> filesystem \<Rightarrow> criteria \<Rightarrow> string \<Rightarrow> int \<Rightarrow> string list
     \<Rightarrow> SearchEngine \<times> SearchResult list \<times> int
     \<Rightarrow> error option \<times> SearchEngine \<times> SearchResult list \<times> int" where
  "files_loop lib fs q dirpath total_files [] st = (None, st)"
| "files_loop lib fs q dirpath total_files (file # rest) (s, results, search_count) =
     (case is_set s of
        (cancelled, s1) \<Rightarrow>
          if cancelled \<or> int (length results) \<ge> max_results q
          then (None, s1, results, search_count)
          else (case file_body lib fs q dirpath total_files file (s1, results, search_count) of
                  (Some e, st) \<Rightarrow> (Some e, st)
                | (None, st) \<Rightarrow> files_loop lib fs q dirpath total_files rest st))"

fun dirs_loop ::
  "pylib \<Rightarrow> filesystem \<Rightarrow> criteria \<Rightarrow> int \<Rightarrow> (string \<times> string list \<times> string list) list
     \<Rightarrow> SearchEngine \<times> SearchResult list \<times> int
     \<Rightarrow> error option \<times> SearchEngine \<times> SearchResult list \<times> int" where
  "dirs_loop lib fs q total_files [] st = (None, st)"
| "dirs_loop lib fs q total_files ((dirpath, dirs, fnames) # rest) (s, results, search_count) =
     (case is_set s of
        (cancelled, s1) \<Rightarrow>
          if cancelled then (None, s1, results, search_count)
          else (case files_loop lib fs q dirpath total_files fnames (s1, results, search_count) of
                  (Some e, st) \<Rightarrow> (Some e, st)
                | (None, st) \<Rightarrow> dirs_loop lib fs q total_files rest st))"

fun estimate_loop ::
  "(string \<times> string list \<times> string list) list \<Rightarrow> int \<times> SearchEngine \<Rightarrow> int \<times> SearchEngine" where
  "estimate_loop [] st = st"
| "estimate_loop ((dirpath, dirs, fnames) # rest) (count_files, s) =
     (case is_set s of
        (cancelled, s1) \<Rightarrow>
          if cancelled then (count_files, s1)
          else (let count_files' = count_files + int (length fnames)
                in if count_files' > 10000 then (count_files', s1)
                   else estimate_loop rest (count_files', s1)))"

definition estimate_file_count :: "filesystem \<Rightarrow> SearchEngine \<Rightarrow> string \<Rightarrow> int \<times> SearchEngine" where
  "estimate_file_count fs s root_path = estimate_loop (walk fs (\<lambda>d. True) root_path) (0, s)"

text \<open>\<open>_search_filesystem\<close>: an exception that leaves the loops is caught by
  \<open>except Exception\<close> and raised again as \<open>SearchError\<close>.\<close>

definition search_filesystem ::
  "pylib \<Rightarrow> filesystem \<Rightarrow> SearchEngine \<Rightarrow> string \<Rightarrow> criteria
     \<Rightarrow> (error + SearchResult list) \<times> SearchEngine" where
  "search_filesystem lib fs s root_path q =
     (case (if progress_callback q then estimate_file_count fs s root_path else (0, s)) of
        (total_files, s0) \<Rightarrow>
          (case dirs_loop lib fs q total_files (walk fs not_hidden root_path) (s0, [], 0) of
             (None, s', results, search_count) \<Rightarrow> (Inr results, s')
           | (Some e, s', results, search_count) \<Rightarrow>
               (Inl (SearchError (''Filesystem search failed: '' @ error_str e)), s')))"

text \<open>
  \<open>_update_index\<close>: the walk that collects the files to index (its first component
  tells that the function returned from inside the loop), then the loop that indexes them.
\<close>

fun collect_loop ::
  "filesystem \<Rightarrow> (string \<times> string list \<times> string list) list \<Rightarrow> SearchEngine \<times> string list
     \<Rightarrow> bool \<times> SearchEngine \<times> string list" where
  "collect_loop fs [] (s, files_to_index) = (False, s, files_to_index)"
| "collect_loop fs ((dirpath, dirs, fnames) # rest) (s, files_to_index) =
     (case is_set s of
        (cancelled, s1) \<Rightarrow>
          if cancelled then (True, s1, files_to_index)
          else collect_loop fs rest
                 (s1, files_to_index @
                        filter (\<lambda>file_path. \<not> is_indexed fs (search_index s1) file_path)
                          (map (join dirpath) fnames)))"

fun index_files_loop ::
  "filesystem \<Rightarrow> bool \<Rightarrow> int \<Rightarrow> (int \<times> string) list \<Rightarrow> SearchEngine \<Rightarrow> SearchEngine" where
  "index_files_loop fs cb n [] s = s"
| "index_files_loop fs cb n ((i, file_path) # rest) s =
     (case is_set s of
        (cancelled, s1) \<Rightarrow>
          if cancelled then s1
          else index_files_loop fs cb n rest
                 (call_progress (cb \<and> i mod 100 = 0) i n
                    (s1\<lparr>search_index := add_file fs (search_index s1) file_path\<rparr>)))"

definition update_index :: "filesystem \<Rightarrow> SearchEngine \<Rightarrow> string \<Rightarrow> bool \<Rightarrow> SearchEngine" where
  "update_index fs s root_path cb =
     (if \<not> indexing_enabled s then s
      else (case collect_loop fs (walk fs not_hidden root_path) (s, []) of
              (returned, s1, files_to_index) \<Rightarrow>
                if returned then s1
                else index_files_loop fs cb (int (length files_to_index))
                       (enumerate files_to_index) s1))"

text \<open>The loop of \<open>_search_with_index\<close> over the candidates, and its body after the
  test of the \<open>break\<close>. An exception of \<open>_matches_criteria\<close> leaves the loop; inside
  the \<open>try\<close>, an \<open>OSError\<close> of \<open>os.stat\<close> or of \<open>datetime.fromtimestamp\<close> skips the
  candidate by \<open>continue\<close>, before the progress callback, and any other exception
  leaves the loop.\<close>

fun candidate_body ::
  "pylib \<Rightarrow> filesystem \<Rightarrow> criteria \<Rightarrow> int \<Rightarrow> int \<times> string
     \<Rightarrow> SearchEngine \<times> SearchResult list \<Rightarrow> error option \<times> SearchEngine \<times> SearchResult list" where
  "candidate_body lib fs q n (i, file_path) (s, results) =
     (case matches_criteria lib fs file_path q of
        Inl e \<Rightarrow> (Some e, s, results)
      | Inr answer \<Rightarrow>
          if answer
          then (case fs_stat fs file_path of
                  None \<Rightarrow> (None, s, results)
                | Some st \<Rightarrow>
                    (case fromtimestamp lib (st_mtime st) of
                       Inl e \<Rightarrow> (if is_OSError e then None else Some e, s, results)
                     | Inr file_date \<Rightarrow>
                         (None, call_progress (progress_callback q \<and> i mod 100 = 0) i n s,
                          results @ [make_result file_path st file_date ''filename'' None None])))
          else (None, call_progress (progress_callback q \<and> i mod 100 = 0) i n s, results))"

fun candidates_loop ::
  "pylib \<Rightarrow> filesystem \<Rightarrow> criteria \<Rightarrow> int \<Rightarrow> (int \<times> string) list
     \<Rightarrow> SearchEngine \<times> SearchResult list \<Rightarrow> error option \<times> SearchEngine \<times> SearchResult list" where
  "candidates_loop lib fs q n [] st = (None, st)"
| "candidates_loop lib fs q n (cand # rest) (s, results) =
     (case is_set s of
        (cancelled, s1) \<Rightarrow>
          if cancelled \<or> int (length results) \<ge> max_results q then (None, s1, results)
          else (case candidate_body lib fs q n cand (s1, results) of
                  (Some e, st) \<Rightarrow> (Some e, st)
                | (None, st) \<Rightarrow> candidates_loop lib fs q n rest st))"

definition search_with_index ::
  "pylib \<Rightarrow> filesystem \<Rightarrow> SearchEngine \<Rightarrow> string \<Rightarrow> criteria
     \<Rightarrow> (error + SearchResult list) \<times> SearchEngine" where
  "search_with_index lib fs s root_path q =
     (let s1 = update_index fs s root_path (progress_callback q)
      in case is_set s1 of
           (cancelled, s2) \<Rightarrow>
             if cancelled then (Inr [], s2)
             else (let candidate_files = set_iter lib (search (search_index s2) (pattern q))
                   in case candidates_loop lib fs q (int (length candidate_files))
                             (enumerate candidate_files) (s2, []) of
                        (None, s3, results) \<Rightarrow> (Inr results, s3)
                      | (Some e, s3, results) \<Rightarrow> (Inl e, s3)))"

section \<open>SearchEngine: the public operations\<close>

text \<open>
  \<open>search_files\<close> raises \<open>SearchError\<close> for a root path that does not exist or is not a
  directory. Otherwise it clears the flag, appends to the history and runs one of the
  strategies inside a \<open>try\<close>, whose \<open>except Exception\<close> (\<open>search_failed\<close>) raises
  \<open>SearchError\<close> with the message of the exception caught. \<open>now\<close> is the value of
  \<open>datetime.now()\<close>. The engine after the call is the second component.
\<close>

definition search_failed ::
  "(error + SearchResult list) \<times> SearchEngine \<Rightarrow> (error + SearchResult list) \<times> SearchEngine" where
  "search_failed outcome =
     (case outcome of
        (Inr results, s) \<Rightarrow> (Inr results, s)
      | (Inl e, s) \<Rightarrow> (Inl (SearchError (''Search operation failed: '' @ error_str e)), s))"

definition search_files ::
  "pylib \<Rightarrow> filesystem \<Rightarrow> SearchEngine \<Rightarrow> string \<Rightarrow> criteria \<Rightarrow> int
     \<Rightarrow> (error + SearchResult list) \<times> SearchEngine" where
  "search_files lib fs s root_path q now =
     (if \<not> exists_path fs root_path
      then (Inl (SearchError (''Root path does not exist: '' @ root_path)), s)
      else if \<not> isdir fs root_path
      then (Inl (SearchError (''Root path is not a directory: '' @ root_path)), s)
      else (let s1 = s\<lparr>cancel_event := False\<rparr>;
                s2 = add_to_history s1
                       \<lparr>h_pattern = pattern q, h_content_search = content_search q,
                        h_timestamp = now, h_root_path = root_path, h_file_type = file_type q\<rparr>
            in if use_index q \<and> indexing_enabled s2 \<and>
                  (content_search q = None \<or> content_search q = Some [])
               then search_failed (search_with_index lib fs s2 root_path q)
               else search_failed (search_filesystem lib fs s2 root_path q)))"

text \<open>\<open>xs[:n]\<close>: a negative bound counts from the end.\<close>

definition slice_to :: "'a list \<Rightarrow> int \<Rightarrow> 'a list" where
  "slice_to xs n = (if 0 \<le> n then take (nat n) xs else take (nat (int (length xs) + n)) xs)"

fun items_loop :: "string \<Rightarrow> string \<Rightarrow> int \<Rightarrow> string list \<Rightarrow> string list \<Rightarrow> string list" where
  "items_loop query_lower dirpath max_res [] results = results"
| "items_loop query_lower dirpath max_res (item # rest) results =
     (if py_in query_lower (lower item)
      then (let results' = results @ [join dirpath item]
            in if int (length results') \<ge> max_res then results'
               else items_loop query_lower dirpath max_res rest results')
      else items_loop query_lower dirpath max_res rest results)"

fun quick_loop ::
  "string \<Rightarrow> int \<Rightarrow> (string \<times> string list \<times> string list) list \<Rightarrow> SearchEngine \<times> string list
     \<Rightarrow> SearchEngine \<times> string list" where
  "quick_loop query_lower max_res [] st = st"
| "quick_loop query_lower max_res ((dirpath, dirs, fnames) # rest) (s, results) =
     (case is_set s of
        (cancelled, s1) \<Rightarrow>
          if cancelled \<or> int (length results) \<ge> max_res then (s1, results)
          else quick_loop query_lower max_res rest
                 (s1, items_loop query_lower dirpath max_res (dirs @ fnames) results))"

definition quick_search ::
  "pylib \<Rightarrow> filesystem \<Rightarrow> SearchEngine \<Rightarrow> string \<Rightarrow> string \<Rightarrow> int
     \<Rightarrow> (error + string list) \<times> SearchEngine" where
  "quick_search lib fs s root_path query max_res =
     (if \<not> exists_path fs root_path
      then (Inl (SearchError (''Root path does not exist: '' @ root_path)), s)
      else if indexing_enabled s
      then (Inr (slice_to (set_iter lib (search (search_index s) query)) max_res), s)
      else (case quick_loop (lower query) max_res (walk fs (\<lambda>d. True) root_path) (s, []) of
              (s', results) \<Rightarrow> (Inr results, s')))"

section \<open>A small file system to run the engine on\<close>

text \<open>
  A directory \<open>/root\<close> with \<open>a.txt\<close> (the text \<open>hello\<close>, modified at time 100), a
  subdirectory \<open>b\<close> with \<open>sub.py\<close> and a hidden subdirectory \<open>.hidden\<close> with \<open>x.txt\<close>.
  \<open>demo_fs_touched\<close> is the same file system after \<open>a.txt\<close> was written again at time
  200; in \<open>demo_fs_future\<close> the modification time of \<open>a.txt\<close> was set to a second of
  the year 33658; in \<open>demo_fs_dangling\<close> the entry \<open>sub.py\<close> is a symbolic link whose
  target is gone, so that \<open>os.stat\<close> fails on it.
  \<open>glob_match\<close> is \<open>fnmatch\<close> on patterns made of \<open>*\<close>, \<open>?\<close> and plain characters.
  \<open>demo_lib\<close> uses it; its \<open>re.search\<close> raises \<open>OverflowError\<close> for the pattern
  \<open>a{4294967296}\<close>, whose repeat count is over the limit, and searches any other pattern
  as a run of plain characters; its \<open>fromtimestamp\<close> takes the seconds of the years
  1 to 9999 and raises \<open>ValueError\<close> outside; it iterates a set in sorted order.
\<close>

fun glob_match :: "string \<Rightarrow> string \<Rightarrow> bool" where
  "glob_match [] [] = True"
| "glob_match (c # cs) [] = False"
| "glob_match [] (p # ps) = (p = CHR ''*'' \<and> glob_match [] ps)"
| "glob_match (c # cs) (p # ps) =
     (if p = CHR ''*'' then glob_match (c # cs) ps \<or> glob_match cs (p # ps)
      else (p = CHR ''?'' \<or> p = c) \<and> glob_match cs ps)"

definition demo_re_search :: "string \<Rightarrow> string \<Rightarrow> error + bool" where
  "demo_re_search p str =
     (if p = ''a{4294967296}'' then Inl (OverflowError ''the repetition number is too large'')
      else Inr (py_in p str))"

definition demo_fromtimestamp :: "int \<Rightarrow> error + int" where
  "demo_fromtimestamp t =
     (if - 62135596800 \<le> t \<and> t \<le> 253402300799 then Inr t
      else Inl (ValueError ''year is out of range''))"

definition demo_lib :: pylib where
  "demo_lib = \<lparr>fnmatch = glob_match, re_search = demo_re_search,
               fromtimestamp = demo_fromtimestamp, set_iter = sorted_list_of_set\<rparr>"

definition demo_tree :: dirtree where
  "demo_tree = Dir [''a.txt''] [(''b'', Dir [''sub.py''] []), (''.hidden'', Dir [''x.txt''] [])]"

definition demo_stat :: "int \<Rightarrow> string \<Rightarrow> stat_result option" where
  "demo_stat t p =
     (if p = ''/root/a.txt'' then Some \<lparr>st_size = 5, st_mtime = t\<rparr>
      else if p = ''/root/b/sub.py'' then Some \<lparr>st_size = 0, st_mtime = 50\<rparr>
      else if p = ''/root/.hidden/x.txt'' then Some \<lparr>st_size = 0, st_mtime = 60\<rparr>
      else None)"

definition demo_content :: "string \<Rightarrow> string option" where
  "demo_content p =
     (if p = ''/root/a.txt'' then Some ''hello''
      else if p = ''/root/b/sub.py'' \<or> p = ''/root/.hidden/x.txt'' then Some [] else None)"

definition demo_lookup :: "string \<Rightarrow> entry" where
  "demo_lookup p =
     (if p = ''/root'' then Directory demo_tree
      else if p = ''/root/b'' then Directory (Dir [''sub.py''] [])
      else if p = ''/root/.hidden'' then Directory (Dir [''x.txt''] [])
      else if p = ''/root/a.txt'' \<or> p = ''/root/b/sub.py'' \<or> p = ''/root/.hidden/x.txt''
      then Regular else Missing)"

definition demo_fs :: filesystem where
  "demo_fs = \<lparr>fs_lookup = demo_lookup, fs_stat = demo_stat 100,
              fs_bytes = demo_content, fs_text = demo_content\<rparr>"

definition demo_fs_touched :: filesystem where
  "demo_fs_touched = \<lparr>fs_lookup = demo_lookup, fs_stat = demo_stat 200,
              fs_bytes = demo_content, fs_text = demo_content\<rparr>"

definition demo_fs_future :: filesystem where
  "demo_fs_future = \<lparr>fs_lookup = demo_lookup, fs_stat = demo_stat 1000000000000,
              fs_bytes = demo_content, fs_text = demo_content\<rparr>"

definition demo_fs_dangling :: filesystem where
  "demo_fs_dangling =
     \<lparr>fs_lookup = (\<lambda>p. if p = ''/root/b/sub.py'' then Missing else demo_lookup p),
      fs_stat = (\<lambda>p. if p = ''/root/b/sub.py'' then None else demo_stat 100 p),
      fs_bytes = (\<lambda>p. if p = ''/root/b/sub.py'' then None else demo_content p),
      fs_text = (\<lambda>p. if p = ''/root/b/sub.py'' then None else demo_content p)\<rparr>"

section \<open>What the specification says of the index\<close>

text \<open>
  The specification of \<open>SearchIndex.search\<close>, in its own words: the query is lowercased
  and cut into word tokens; a path is returned when, for every token of the query, it is
  in the posting set of some indexed word that contains the token; a query with no
  token returns the empty set.
\<close>

definition search_spec :: "SearchIndex \<Rightarrow> string \<Rightarrow> string set" where
  "search_spec ix query =
     (let tokens = re_findall_w (lower query)
      in if tokens = [] then {}
         else (\<Inter>t \<in> set tokens. \<Union> (snd ` {e \<in> set (index ix). sublist t (fst e)})))"

section \<open>Notions used in the statements\<close>

text \<open>
  Two engines have the same configuration when they differ at most in the index, the
  cancellation flag, the pending cancellation and the progress log. A root path is valid
  when it passes the two checks at the head of \<open>search_files\<close>. \<open>query_info\<close> is the
  descriptor that \<open>search_files\<close> appends to the history and \<open>entry_state\<close> the engine
  with which the chosen strategy starts.
\<close>

definition same_config :: "SearchEngine \<Rightarrow> SearchEngine \<Rightarrow> bool" where
  "same_config s s' =
     (search_history s' = search_history s \<and> max_history s' = max_history s \<and>
      max_workers s' = max_workers s \<and> chunk_size s' = chunk_size s \<and>
      max_file_size_for_content_search s' = max_file_size_for_content_search s \<and>
      indexing_enabled s' = indexing_enabled s)"

definition valid_root :: "filesystem \<Rightarrow> string \<Rightarrow> bool" where
  "valid_root fs root_path = (exists_path fs root_path \<and> isdir fs root_path)"

definition query_info :: "string \<Rightarrow> criteria \<Rightarrow> int \<Rightarrow> search_info" where
  "query_info root_path q now =
     \<lparr>h_pattern = pattern q, h_content_search = content_search q, h_timestamp = now,
      h_root_path = root_path, h_file_type = file_type q\<rparr>"

definition entry_state :: "SearchEngine \<Rightarrow> string \<Rightarrow> criteria \<Rightarrow> int \<Rightarrow> SearchEngine" where
  "entry_state s root_path q now =
     add_to_history (s\<lparr>cancel_event := False\<rparr>) (query_info root_path q now)"

text \<open>
  The history with one more descriptor, as the specification bounds it: the oldest
  entry leaves when the length would pass \<open>max_history\<close>.
\<close>

definition history_with :: "SearchEngine \<Rightarrow> search_info \<Rightarrow> search_info list" where
  "history_with s info =
     (if int (length (search_history s)) + 1 > max_history s
      then tl (search_history s) @ [info]
      else search_history s @ [info])"

text \<open>
  The content of a file contains the term of a content search, both lowercased unless
  the search is case sensitive. A result is \<open>small_or_filename\<close> when it records the
  size that \<open>os.stat\<close> reports for its path and is a filename match unless that size is
  within the limit of the content search.
\<close>

definition case_adjust :: "bool \<Rightarrow> string \<Rightarrow> string" where
  "case_adjust case_sens str = (if \<not> case_sens then lower str else str)"

definition content_has_term :: "filesystem \<Rightarrow> string \<Rightarrow> bool \<Rightarrow> string \<Rightarrow> bool" where
  "content_has_term fs file_path case_sens ct =
     (case fs_text fs file_path of
        None \<Rightarrow> False
      | Some content \<Rightarrow> sublist (case_adjust case_sens ct) (case_adjust case_sens content))"

definition small_or_filename :: "filesystem \<Rightarrow> int \<Rightarrow> SearchResult \<Rightarrow> bool" where
  "small_or_filename fs limit r =
     (\<exists>st. fs_stat fs (path r) = Some st \<and> size_f r = st_size st \<and>
           (st_size st \<le> limit \<or> match_type r = ''filename''))"

definition results_ok :: "filesystem \<Rightarrow> SearchEngine \<Rightarrow> SearchEngine \<times> SearchResult list \<times> int \<Rightarrow> bool" where
  "results_ok fs s0 st =
     (same_config s0 (fst st) \<and>
      (\<forall>r \<in> set (fst (snd st)). small_or_filename fs (max_file_size_for_content_search s0) r))"

definition has_posting :: "string \<Rightarrow> (string \<times> string set) list \<Rightarrow> string \<Rightarrow> bool" where
  "has_posting p d w = (\<exists>S. map_of d w = Some S \<and> p \<in> S)"

text \<open>
  The files of a directory tree that are not below a directory whose name starts with a
  dot, as paths under \<open>dirpath\<close>, in the order of the walk; and the files named by the
  triples of a walk.
\<close>

fun visible_files :: "string \<Rightarrow> dirtree \<Rightarrow> string list" where
  "visible_files dirpath (Dir fnames subs) =
     map (join dirpath) fnames @
     concat (map (\<lambda>(d, t). if startswith d ''.'' then [] else visible_files (join dirpath d) t) subs)"

definition walked_files :: "(string \<times> string list \<times> string list) list \<Rightarrow> string list" where
  "walked_files triples = concat (map (\<lambda>(dirpath, dirs, fnames). map (join dirpath) fnames) triples)"

text \<open>
  The flag is polled once for every directory of a walk and once more before every
  file of the directory. \<open>reached_files n\<close> are the files of a walk that are handed to
  \<open>_process_file\<close> when the first \<open>n\<close> polls find the flag clear and the next one finds
  it set. \<open>estimate_polls\<close> counts the polls of \<open>_estimate_file_count\<close>, which stops
  after the directory that takes its count over 10000. \<open>files_reached\<close> are the files
  that the walk of \<open>_search_filesystem\<close> hands to \<open>_process_file\<close>, as long as the
  result list is below \<open>max_results\<close> and no exception leaves the loops: all the
  files of the pruned walk when no cancellation is pending, and those reached by the
  polls that are left after the estimate otherwise.
\<close>

fun reached_files :: "nat \<Rightarrow> (string \<times> string list \<times> string list) list \<Rightarrow> string list" where
  "reached_files n [] = []"
| "reached_files 0 (tr # rest) = []"
| "reached_files (Suc n) ((dirpath, dirs, fnames) # rest) =
     map (join dirpath) (take n fnames) @ reached_files (n - length fnames) rest"

fun estimate_polls :: "(string \<times> string list \<times> string list) list \<Rightarrow> int \<Rightarrow> nat" where
  "estimate_polls [] count_files = 0"
| "estimate_polls ((dirpath, dirs, fnames) # rest) count_files =
     Suc (if count_files + int (length fnames) > 10000 then 0
          else estimate_polls rest (count_files + int (length fnames)))"

definition files_reached :: "filesystem \<Rightarrow> SearchEngine \<Rightarrow> criteria \<Rightarrow> string \<Rightarrow> string list" where
  "files_reached fs s q root_path =
     (case pending_cancel s of
        None \<Rightarrow> walked_files (walk fs not_hidden root_path)
      | Some n \<Rightarrow>
          reached_files
            (n - (if progress_callback q
                  then estimate_polls (walk fs (\<lambda>d. True) root_path) 0 else 0))
            (walk fs not_hidden root_path))"

text \<open>
  \<open>scan_files\<close> is what \<open>_search_filesystem\<close> computes from the files it reaches, the
  loops and the flag left aside: the files are handed to \<open>_process_file\<close> in order
  until the result list has \<open>max_results\<close> entries; a file on which it raises
  \<open>OSError\<close> is passed over, and any other exception ends the scan.
\<close>

fun scan_files ::
  "pylib \<Rightarrow> filesystem \<Rightarrow> SearchEngine \<Rightarrow> criteria \<Rightarrow> SearchResult list \<Rightarrow> string list
     \<Rightarrow> error + SearchResult list" where
  "scan_files lib fs s q results [] = Inr results"
| "scan_files lib fs s q results (file_path # rest) =
     (if int (length results) \<ge> max_results q then Inr results
      else (case process_file lib fs s file_path q results of
              Inl e \<Rightarrow> if is_OSError e then scan_files lib fs s q results rest else Inl e
            | Inr (accepted, results') \<Rightarrow> scan_files lib fs s q results' rest))"

text \<open>
  A search is \<open>name_only\<close> when none of the content, type, size and date criteria is
  given. A path is a \<open>hit\<close> when its base name matches the name pattern and \<open>os.stat\<close>
  succeeds on it. A path \<open>raises\<close> when \<open>_match_pattern\<close> raises on its base name or,
  the name matching and \<open>os.stat\<close> succeeding, \<open>datetime.fromtimestamp\<close> raises on
  its modification time. An engine is \<open>quiet\<close> when the flag is clear and no
  cancellation is pending. \<open>indexed_strategy\<close> is the condition under which
  \<open>search_files\<close> uses the index.
\<close>

definition name_only :: "criteria \<Rightarrow> bool" where
  "name_only q =
     (content_search q = None \<and> file_type q = None \<and> size_min q = None \<and> size_max q = None \<and>
      date_from q = None \<and> date_to q = None)"

definition hit :: "pylib \<Rightarrow> filesystem \<Rightarrow> criteria \<Rightarrow> string \<Rightarrow> bool" where
  "hit lib fs q file_path =
     (match_pattern lib (basename file_path) (pattern q) (case_sensitive q) (regex q) = Inr True \<and>
      fs_stat fs file_path \<noteq> None)"

definition raises :: "pylib \<Rightarrow> filesystem \<Rightarrow> criteria \<Rightarrow> string \<Rightarrow> bool" where
  "raises lib fs q file_path =
     (case match_pattern lib (basename file_path) (pattern q) (case_sensitive q) (regex q) of
        Inl e \<Rightarrow> True
      | Inr matched \<Rightarrow>
          matched \<and>
          (case fs_stat fs file_path of
             None \<Rightarrow> False
           | Some st \<Rightarrow>
               (case fromtimestamp lib (st_mtime st) of Inl e \<Rightarrow> True | Inr d \<Rightarrow> False)))"

definition quiet :: "SearchEngine \<Rightarrow> bool" where
  "quiet s = (pending_cancel s = None \<and> \<not> cancel_event s)"

definition indexed_strategy :: "SearchEngine \<Rightarrow> criteria \<Rightarrow> bool" where
  "indexed_strategy s q =
     (use_index q \<and> indexing_enabled s \<and> (content_search q = None \<or> content_search q = Some []))"

text \<open>
  \<open>matching_files\<close> are the hits among the visible files of a tree.
  \<open>walk_outcome\<close> is what \<open>search_files\<close> makes of the outcome of a scan: the
  exception that ended it comes out as \<open>SearchError\<close>, wrapped by
  \<open>_search_filesystem\<close> and again by \<open>search_files\<close>. \<open>file_error\<close> tells that
  \<open>_process_file\<close> raises an exception other than \<open>OSError\<close> on a path.
  \<open>snapshot_ok s0 s\<close> holds when \<open>s\<close> has the configuration of \<open>s0\<close> and every call
  of the progress callback logged since \<open>s0\<close> found the history of \<open>s0\<close> in the engine.
\<close>

definition matching_files :: "pylib \<Rightarrow> filesystem \<Rightarrow> criteria \<Rightarrow> string \<Rightarrow> dirtree \<Rightarrow> string list" where
  "matching_files lib fs q root_path t = filter (hit lib fs q) (visible_files root_path t)"

definition walk_outcome :: "error + SearchResult list \<Rightarrow> error + SearchResult list" where
  "walk_outcome outcome =
     (case outcome of
        Inl e \<Rightarrow>
          Inl (SearchError (''Search operation failed: Filesystem search failed: '' @ error_str e))
      | Inr rs \<Rightarrow> Inr rs)"

definition file_error :: "pylib \<Rightarrow> filesystem \<Rightarrow> SearchEngine \<Rightarrow> criteria \<Rightarrow> string \<Rightarrow> bool" where
  "file_error lib fs s q file_path =
     (case process_file lib fs s file_path q [] of Inl e \<Rightarrow> \<not> is_OSError e | Inr ar \<Rightarrow> False)"

definition snapshot_ok :: "SearchEngine \<Rightarrow> SearchEngine \<Rightarrow> bool" where
  "snapshot_ok s0 s =
     (same_config s0 s \<and> prefix (progress_log s0) (progress_log s) \<and>
      (\<forall>entry \<in> set (drop (length (progress_log s0)) (progress_log s)).
         snd (snd entry) = search_history s0))"

text \<open>
  A file system that holds one directory, \<open>/big\<close>, with 1001 empty files: the name of
  the file number \<open>n\<close> is \<open>n mod 40 + 1\<close> letters \<open>f\<close> followed by \<open>n div 40 + 1\<close>
  letters \<open>g\<close>, so that no name has more than 66 characters.
\<close>

definition big_name :: "nat \<Rightarrow> string" where
  "big_name n = replicate (Suc (n mod 40)) CHR ''f'' @ replicate (Suc (n div 40)) CHR ''g''"

definition big_tree :: dirtree where
  "big_tree = Dir (map big_name [0..<1001]) []"

definition big_files :: "string list" where
  "big_files = map (\<lambda>n. ''/big/'' @ big_name n) [0..<1001]"

definition big_fs :: filesystem where
  "big_fs =
     \<lparr>fs_lookup = (\<lambda>p. if p = ''/big'' then Directory big_tree
                       else if p \<in> set big_files then Regular else Missing),
      fs_stat = (\<lambda>p. if p = ''/big'' \<or> p \<in> set big_files
                     then Some \<lparr>st_size = 0, st_mtime = 0\<rparr> else None),
      fs_bytes = (\<lambda>p. if p \<in> set big_files then Some [] else None),
      fs_text = (\<lambda>p. if p \<in> set big_files then Some [] else None)\<rparr>"

section \<open>Properties of the index\<close>

lemmas demo_defs = demo_fs_def demo_fs_touched_def demo_stat_def demo_content_def
  demo_lookup_def demo_tree_def demo_lib_def demo_re_search_def demo_fromtimestamp_def

lemmas index_eval = add_file_def search_def SearchIndex_init_def getmtime_def Let_def
  basename_def lower_def lower_char_def re_findall_w_def is_word_char_def add_word_def
  word_matches_def

lemma findall_w_tokens:
  "t \<in> set (findall_w cur s) \<Longrightarrow> list_all is_word_char cur \<Longrightarrow>
   t \<noteq> [] \<and> list_all is_word_char t"
  by (induction cur s rule: findall_w.induct) (auto split: if_splits)

lemma re_findall_w_tokens:
  "t \<in> set (re_findall_w s) \<Longrightarrow> t \<noteq> [] \<and> list_all is_word_char t"
  unfolding re_findall_w_def using findall_w_tokens [of t "[]" s] by simp

lemma py_in_sublist: "py_in sub s = sublist sub s"
  by (induction s) (auto simp: sublist_Cons_right)

lemma word_matches_fold:
  "fold (\<lambda>(indexed_word, paths) matches.
             if sublist word indexed_word then matches \<union> paths else matches) d acc
   = acc \<union> \<Union> (snd ` {e \<in> set d. sublist word (fst e)})"
proof (induction d arbitrary: acc)
  case Nil
  show ?case by simp
next
  case (Cons e d)
  obtain w S where e: "e = (w, S)" by (cases e)
  have split_set: "{x \<in> set (e # d). sublist word (fst x)} =
      (if sublist word w then {e} else {}) \<union> {x \<in> set d. sublist word (fst x)}"
    using e by auto
  show ?case
    unfolding split_set using e by (auto simp: Cons.IH)
qed

lemma word_matches_eq:
  "word_matches d word = \<Union> (snd ` {e \<in> set d. sublist word (fst e)})"
  by (simp add: word_matches_def py_in_sublist word_matches_fold)

lemma fold_inter: "fold (\<lambda>t acc. acc \<inter> t) ss s = s \<inter> \<Inter> (set ss)"
  by (induction ss arbitrary: s) auto

lemma set_intersection_eq: "ss \<noteq> [] \<Longrightarrow> set_intersection ss = \<Inter> (set ss)"
  by (cases ss) (auto simp: fold_inter)

text \<open>
  C4. For every index and every query, \<open>search\<close> returns what the specification
  describes: the intersection, over the word tokens of the lowercased query, of the union
  of the posting sets of the indexed words that contain the token as a substring, and the
  empty set when the query has no word token.
\<close>

theorem C4_search_refines_spec: "search ix query = search_spec ix query"
  by (simp add: search_def search_spec_def Let_def set_intersection_eq word_matches_eq)

theorem C4_search_refines_spec_witness:
  "search_spec (add_file demo_fs SearchIndex_init ''/root/a.txt'') ''A tx'' = {''/root/a.txt''} \<and>
   search_spec (add_file demo_fs SearchIndex_init ''/root/a.txt'') ''--'' = {}"
  using C4_search_refines_spec [of "add_file demo_fs SearchIndex_init ''/root/a.txt''" "''A tx''"]
    C4_search_refines_spec [of "add_file demo_fs SearchIndex_init ''/root/a.txt''" "''--''"]
  by (simp add: index_eval demo_defs)

text \<open>
  C5. Right after \<open>add_file\<close> of a file whose modification time can be read,
  \<open>is_indexed\<close> is true on the same file system; it is false on a later file system in
  which the modification time of the file has advanced; and it is false, not an error,
  for a path with no recorded time stamp and for a path whose \<open>stat\<close> fails.
\<close>

theorem C5_is_indexed:
  "(getmtime fs f = Some t \<longrightarrow> is_indexed fs (add_file fs ix f) f) \<and>
   (getmtime fs f = Some t \<and> getmtime fs' f = Some t' \<and> t < t' \<longrightarrow>
      \<not> is_indexed fs' (add_file fs ix f) f) \<and>
   (file_timestamps ix p = None \<longrightarrow> \<not> is_indexed fs ix p) \<and>
   (getmtime fs p = None \<longrightarrow> \<not> is_indexed fs ix p)"
  by (auto simp: is_indexed_def add_file_def Let_def split: option.splits)

theorem C5_is_indexed_witness:
  "is_indexed demo_fs (add_file demo_fs SearchIndex_init ''/root/a.txt'') ''/root/a.txt'' \<and>
   \<not> is_indexed demo_fs_touched (add_file demo_fs SearchIndex_init ''/root/a.txt'') ''/root/a.txt'' \<and>
   \<not> is_indexed demo_fs SearchIndex_init ''/root/a.txt'' \<and>
   \<not> is_indexed demo_fs (add_file demo_fs SearchIndex_init ''/root/a.txt'') ''/root/gone.txt''"
  using C5_is_indexed [where fs = demo_fs and f = "''/root/a.txt''" and t = 100
      and fs' = demo_fs_touched and t' = 200 and ix = SearchIndex_init and p = "''/root/a.txt''"]
    C5_is_indexed [where fs = demo_fs and f = "''/root/a.txt''" and t = 100
      and fs' = demo_fs_touched and t' = 200
      and ix = "add_file demo_fs SearchIndex_init ''/root/a.txt''" and p = "''/root/gone.txt''"]
  by (simp add: getmtime_def demo_defs SearchIndex_init_def)

lemma map_entry_id: "map_of d k = Some v \<Longrightarrow> f v = v \<Longrightarrow> AList.map_entry k f d = d"
  by (induction d) (auto split: if_splits)

lemma add_word_id: "has_posting p d w \<Longrightarrow> add_word p w d = d"
  unfolding has_posting_def add_word_def
  by (auto simp: map_entry_id insert_absorb)

lemma add_word_has: "has_posting p (add_word p w d) w"
  unfolding has_posting_def add_word_def
  by (auto simp: map_of_map_entry split: option.splits)

lemma add_word_keeps: "has_posting p d w \<Longrightarrow> has_posting p (add_word p w' d) w"
  unfolding has_posting_def add_word_def
  by (auto simp: map_of_map_entry split: option.splits)

lemma fold_add_word_keeps:
  "has_posting p d w \<Longrightarrow> has_posting p (fold (add_word p) ws d) w"
  by (induction ws arbitrary: d) (auto simp: add_word_keeps)

lemma fold_add_word_has:
  "w \<in> set ws \<Longrightarrow> has_posting p (fold (add_word p) ws d) w"
  by (induction ws arbitrary: d) (auto simp: add_word_has fold_add_word_keeps)

lemma fold_add_word_id:
  "(\<And>w. w \<in> set ws \<Longrightarrow> has_posting p d w) \<Longrightarrow> fold (add_word p) ws d = d"
  by (induction ws arbitrary: d) (auto simp: add_word_id)

lemma add_file_twice:
  "getmtime fs' f = getmtime fs f \<Longrightarrow> add_file fs' (add_file fs ix f) f = add_file fs ix f"
  by (auto simp: add_file_def Let_def fold_add_word_id fold_add_word_has split: option.splits)

text \<open>
  C9. Adding a file a second time, with its name and its modification time unchanged,
  leaves the result of every query as it was after the first \<open>add_file\<close>.
\<close>

theorem C9_add_file_idempotent:
  "getmtime fs' f = getmtime fs f \<Longrightarrow>
   search (add_file fs' (add_file fs ix f) f) q = search (add_file fs ix f) q"
  by (simp add: add_file_twice)

theorem C9_add_file_idempotent_witness:
  "search (add_file demo_fs (add_file demo_fs SearchIndex_init ''/root/a.txt'') ''/root/a.txt'') ''txt''
     = search (add_file demo_fs SearchIndex_init ''/root/a.txt'') ''txt'' \<and>
   search (add_file demo_fs SearchIndex_init ''/root/a.txt'') ''txt'' = {''/root/a.txt''}"
  using C9_add_file_idempotent [where fs' = demo_fs and f = "''/root/a.txt''" and fs = demo_fs
      and ix = SearchIndex_init and q = "''txt''"]
  by (simp add: index_eval demo_defs)

section \<open>Invariants of the loops\<close>

lemma same_config_refl: "same_config s s"
  by (simp add: same_config_def)

lemma same_config_trans: "same_config s s1 \<Longrightarrow> same_config s1 s2 \<Longrightarrow> same_config s s2"
  by (simp add: same_config_def)

lemma same_config_sym: "same_config s s' \<Longrightarrow> same_config s' s"
  by (simp add: same_config_def)

lemma same_config_is_set: "same_config s (snd (is_set s))"
  by (simp add: same_config_def is_set_def split: option.splits nat.splits)

lemma is_set_same_config: "is_set s = (c, s1) \<Longrightarrow> same_config s0 s \<Longrightarrow> same_config s0 s1"
  using same_config_is_set [of s] same_config_trans by fastforce

lemma same_config_progress: "same_config s0 s \<Longrightarrow> same_config s0 (call_progress due a b s)"
  by (simp add: same_config_def call_progress_def)

lemma same_config_index: "same_config s0 s \<Longrightarrow> same_config s0 (s\<lparr>search_index := ix\<rparr>)"
  by (simp add: same_config_def)

lemma files_loop_invariant:
  assumes poll: "\<And>s r n c s1. I (s, r, n) \<Longrightarrow> is_set s = (c, s1) \<Longrightarrow> I (s1, r, n)"
    and body: "\<And>f st. I st \<Longrightarrow> I (snd (file_body lib fs q dirpath tf f st))"
  shows "I st \<Longrightarrow> I (snd (files_loop lib fs q dirpath tf fnames st))"
proof (induction fnames arbitrary: st)
  case Nil
  then show ?case by simp
next
  case (Cons f rest)
  obtain s r n where st: "st = (s, r, n)" by (cases st)
  obtain c s1 where p: "is_set s = (c, s1)" by (cases "is_set s")
  have i1: "I (s1, r, n)" using Cons.prems st p poll by blast
  show ?case
  proof (cases "c \<or> int (length r) \<ge> max_results q")
    case True
    then show ?thesis using st p i1 by auto
  next
    case False
    obtain eo st2 where b: "file_body lib fs q dirpath tf f (s1, r, n) = (eo, st2)"
      by (cases "file_body lib fs q dirpath tf f (s1, r, n)")
    have i2: "I st2" using body [OF i1, of f] b by simp
    show ?thesis
    proof (cases eo)
      case None
      then show ?thesis using st p False b Cons.IH [OF i2] by simp
    next
      case (Some e)
      then show ?thesis using st p False b i2 by simp
    qed
  qed
qed

lemma dirs_loop_invariant:
  assumes poll: "\<And>s r n c s1. I (s, r, n) \<Longrightarrow> is_set s = (c, s1) \<Longrightarrow> I (s1, r, n)"
    and body: "\<And>dirpath f st. I st \<Longrightarrow> I (snd (file_body lib fs q dirpath tf f st))"
  shows "I st \<Longrightarrow> I (snd (dirs_loop lib fs q tf triples st))"
proof (induction triples arbitrary: st)
  case Nil
  then show ?case by simp
next
  case (Cons tr rest)
  obtain dirpath dirs fnames where tr: "tr = (dirpath, dirs, fnames)" by (cases tr)
  obtain s r n where st: "st = (s, r, n)" by (cases st)
  obtain c s1 where p: "is_set s = (c, s1)" by (cases "is_set s")
  have i1: "I (s1, r, n)" using Cons.prems st p poll by blast
  obtain eo st2 where l: "files_loop lib fs q dirpath tf fnames (s1, r, n) = (eo, st2)"
    by (cases "files_loop lib fs q dirpath tf fnames (s1, r, n)")
  have "I (snd (files_loop lib fs q dirpath tf fnames (s1, r, n)))"
    by (rule files_loop_invariant [of I, OF poll body i1])
  then have i2: "I st2" using l by simp
  show ?case
  proof (cases c)
    case True
    then show ?thesis using st p tr i1 by simp
  next
    case False
    show ?thesis
    proof (cases eo)
      case None
      then show ?thesis using st p tr False l Cons.IH [OF i2] by simp
    next
      case (Some e)
      then show ?thesis using st p tr False l i2 by simp
    qed
  qed
qed

lemma candidates_loop_invariant:
  assumes poll: "\<And>s r c s1. I (s, r) \<Longrightarrow> is_set s = (c, s1) \<Longrightarrow> I (s1, r)"
    and body: "\<And>cand st. I st \<Longrightarrow> I (snd (candidate_body lib fs q n cand st))"
  shows "I st \<Longrightarrow> I (snd (candidates_loop lib fs q n cands st))"
proof (induction cands arbitrary: st)
  case Nil
  then show ?case by simp
next
  case (Cons cand rest)
  obtain s r where st: "st = (s, r)" by (cases st)
  obtain c s1 where p: "is_set s = (c, s1)" by (cases "is_set s")
  have i1: "I (s1, r)" using Cons.prems st p poll by blast
  show ?case
  proof (cases "c \<or> int (length r) \<ge> max_results q")
    case True
    then show ?thesis using st p i1 by auto
  next
    case False
    obtain eo st2 where b: "candidate_body lib fs q n cand (s1, r) = (eo, st2)"
      by (cases "candidate_body lib fs q n cand (s1, r)")
    have i2: "I st2" using body [OF i1, of cand] b by simp
    show ?thesis
    proof (cases eo)
      case None
      then show ?thesis using st p False b Cons.IH [OF i2] by simp
    next
      case (Some e)
      then show ?thesis using st p False b i2 by simp
    qed
  qed
qed

lemma estimate_loop_invariant:
  assumes poll: "\<And>s c s1. I s \<Longrightarrow> is_set s = (c, s1) \<Longrightarrow> I s1"
  shows "I (snd st) \<Longrightarrow> I (snd (estimate_loop triples st))"
proof (induction triples arbitrary: st)
  case Nil
  then show ?case by simp
next
  case (Cons tr rest)
  obtain dirpath dirs fnames where tr: "tr = (dirpath, dirs, fnames)" by (cases tr)
  obtain k s where st: "st = (k, s)" by (cases st)
  obtain c s1 where p: "is_set s = (c, s1)" by (cases "is_set s")
  have i1: "I s1" using Cons.prems st p poll by auto
  show ?case using st p tr i1 Cons.IH [of "(k + int (length fnames), s1)"] by (auto simp: Let_def)
qed

lemma collect_loop_invariant:
  assumes poll: "\<And>s c s1. I s \<Longrightarrow> is_set s = (c, s1) \<Longrightarrow> I s1"
  shows "I (fst st) \<Longrightarrow> I (fst (snd (collect_loop fs triples st)))"
proof (induction triples arbitrary: st)
  case Nil
  then show ?case by (cases st) simp
next
  case (Cons tr rest)
  obtain dirpath dirs fnames where tr: "tr = (dirpath, dirs, fnames)" by (cases tr)
  obtain s acc where st: "st = (s, acc)" by (cases st)
  obtain c s1 where p: "is_set s = (c, s1)" by (cases "is_set s")
  have i1: "I s1" using Cons.prems st p poll by auto
  show ?case using st p tr i1
      Cons.IH [of "(s1, acc @ filter (\<lambda>file_path. \<not> is_indexed fs (search_index s1) file_path)
                          (map (join dirpath) fnames))"]
    by (auto simp: Let_def)
qed

lemma index_files_loop_invariant:
  assumes poll: "\<And>s c s1. I s \<Longrightarrow> is_set s = (c, s1) \<Longrightarrow> I s1"
    and body: "\<And>s i fp. I s \<Longrightarrow>
       I (call_progress (cb \<and> i mod 100 = 0) i n (s\<lparr>search_index := add_file fs (search_index s) fp\<rparr>))"
  shows "I s \<Longrightarrow> I (index_files_loop fs cb n todo s)"
proof (induction todo arbitrary: s)
  case Nil
  then show ?case by simp
next
  case (Cons e rest)
  obtain i fp where e: "e = (i, fp)" by (cases e)
  obtain c s1 where p: "is_set s = (c, s1)" by (cases "is_set s")
  have i1: "I s1" using Cons.prems p poll by auto
  show ?case using p e i1 body [OF i1] Cons.IH by auto
qed

text \<open>An invariant of the engine that the poll of the flag, the progress callback and
  the update of the index keep is kept by both strategies.\<close>

lemma file_body_engine:
  assumes prog: "\<And>s due a b. I s \<Longrightarrow> I (call_progress due a b s)"
    and idx: "\<And>s ix. I s \<Longrightarrow> I (s\<lparr>search_index := ix\<rparr>)"
  shows "I (fst st) \<Longrightarrow> I (fst (snd (file_body lib fs q dirpath tf f st)))"
proof -
  assume a: "I (fst st)"
  obtain s r n where st: "st = (s, r, n)" by (cases st)
  define s2 where "s2 = call_progress (progress_callback q \<and> (n + 1) mod 50 = 0) (n + 1) tf s"
  have i2: "I s2" unfolding s2_def using a st prog by simp
  have i3: "I (s2\<lparr>search_index := ix\<rparr>)" for ix using i2 by (rule idx)
  show ?thesis
  proof (cases "process_file lib fs s2 (join dirpath f) q r")
    case (Inl e)
    then show ?thesis using st i2 by (simp add: s2_def [symmetric] Let_def)
  next
    case (Inr ar)
    obtain accepted r' where ar: "ar = (accepted, r')" by (cases ar)
    show ?thesis using st i2 i3 Inr ar by (simp add: s2_def [symmetric] Let_def)
  qed
qed

lemma candidate_body_engine:
  assumes prog: "\<And>s due a b. I s \<Longrightarrow> I (call_progress due a b s)"
  shows "I (fst st) \<Longrightarrow> I (fst (snd (candidate_body lib fs q n cand st)))"
proof -
  assume a: "I (fst st)"
  obtain s r where st: "st = (s, r)" by (cases st)
  obtain i fp where cand: "cand = (i, fp)" by (cases cand)
  have i2: "I (call_progress due x y s)" for due x y using a st prog by simp
  have i1: "I s" using a st by simp
  show ?thesis
    unfolding st cand using i1 i2
    by (simp split: sum.splits option.splits)
qed

lemma search_filesystem_engine:
  assumes poll: "\<And>s c s1. I s \<Longrightarrow> is_set s = (c, s1) \<Longrightarrow> I s1"
    and prog: "\<And>s due a b. I s \<Longrightarrow> I (call_progress due a b s)"
    and idx: "\<And>s ix. I s \<Longrightarrow> I (s\<lparr>search_index := ix\<rparr>)"
  shows "I s \<Longrightarrow> I (snd (search_filesystem lib fs s root_path q))"
proof -
  assume a: "I s"
  define st0 where "st0 = (if progress_callback q then estimate_file_count fs s root_path else (0, s))"
  have "I (snd (estimate_loop (walk fs (\<lambda>d. True) root_path) (0, s)))"
    by (rule estimate_loop_invariant [of I, OF poll]) (use a in simp_all)
  then have e: "I (snd st0)"
    unfolding st0_def estimate_file_count_def using a by simp
  have "I (fst (snd (dirs_loop lib fs q (fst st0) (walk fs not_hidden root_path) (snd st0, [], 0))))"
  proof (rule dirs_loop_invariant [where I = "\<lambda>st. I (fst st)"])
    show "\<And>s r n c s1. I (fst (s, r, n)) \<Longrightarrow> is_set s = (c, s1) \<Longrightarrow> I (fst (s1, r, n))"
      using poll by simp
    show "\<And>dirpath f st. I (fst st) \<Longrightarrow> I (fst (snd (file_body lib fs q dirpath (fst st0) f st)))"
      by (rule file_body_engine [of I, OF prog idx])
    show "I (fst (snd st0, [], 0))" using e by simp
  qed
  then show ?thesis
    unfolding search_filesystem_def st0_def [symmetric]
    by (auto split: prod.splits option.splits)
qed

lemma update_index_engine:
  assumes poll: "\<And>s c s1. I s \<Longrightarrow> is_set s = (c, s1) \<Longrightarrow> I s1"
    and prog: "\<And>s due a b. I s \<Longrightarrow> I (call_progress due a b s)"
    and idx: "\<And>s ix. I s \<Longrightarrow> I (s\<lparr>search_index := ix\<rparr>)"
  shows "I s \<Longrightarrow> I (update_index fs s root_path cb)"
proof -
  assume a: "I s"
  show ?thesis
  proof (cases "indexing_enabled s")
    case False
    then show ?thesis using a by (simp add: update_index_def)
  next
    case True
    obtain returned s1 todo where c: "collect_loop fs (walk fs not_hidden root_path) (s, []) = (returned, s1, todo)"
      by (cases "collect_loop fs (walk fs not_hidden root_path) (s, [])")
    have "I (fst (snd (collect_loop fs (walk fs not_hidden root_path) (s, []))))"
      by (rule collect_loop_invariant [of I, OF poll]) (use a in simp_all)
    then have c1: "I s1" using c by simp
    have "I (index_files_loop fs cb (int (length todo)) (enumerate todo) s1)"
      by (rule index_files_loop_invariant [of I, OF poll _ c1]) (simp_all add: prog idx)
    then show ?thesis using True c c1 by (simp add: update_index_def)
  qed
qed

lemma search_with_index_engine:
  assumes poll: "\<And>s c s1. I s \<Longrightarrow> is_set s = (c, s1) \<Longrightarrow> I s1"
    and prog: "\<And>s due a b. I s \<Longrightarrow> I (call_progress due a b s)"
    and idx: "\<And>s ix. I s \<Longrightarrow> I (s\<lparr>search_index := ix\<rparr>)"
  shows "I s \<Longrightarrow> I (snd (search_with_index lib fs s root_path q))"
proof -
  assume a: "I s"
  define s1 where "s1 = update_index fs s root_path (progress_callback q)"
  have c1: "I s1" unfolding s1_def by (rule update_index_engine [of I, OF poll prog idx a])
  obtain c s2 where p: "is_set s1 = (c, s2)" by (cases "is_set s1")
  have c2: "I s2" using c1 p by (rule poll)
  define cands where "cands = set_iter lib (search (search_index s2) (pattern q))"
  have "I (fst (snd (candidates_loop lib fs q (int (length cands)) (enumerate cands) (s2, []))))"
  proof (rule candidates_loop_invariant [where I = "\<lambda>st. I (fst st)"])
    show "\<And>s r c s1. I (fst (s, r)) \<Longrightarrow> is_set s = (c, s1) \<Longrightarrow> I (fst (s1, r))"
      using poll by simp
    show "\<And>cand st. I (fst st) \<Longrightarrow> I (fst (snd (candidate_body lib fs q (int (length cands)) cand st)))"
      by (rule candidate_body_engine [of I, OF prog])
    show "I (fst (s2, []))" using c2 by simp
  qed
  then show ?thesis
    unfolding search_with_index_def s1_def [symmetric] Let_def
    using p c2 by (auto simp: cands_def split: prod.splits option.splits)
qed

lemma search_failed_snd: "snd (search_failed outcome) = snd outcome"
  by (auto simp: search_failed_def split: prod.splits sum.splits)

lemma strategies_engine:
  assumes poll: "\<And>s c s1. I s \<Longrightarrow> is_set s = (c, s1) \<Longrightarrow> I s1"
    and prog: "\<And>s due a b. I s \<Longrightarrow> I (call_progress due a b s)"
    and idx: "\<And>s ix. I s \<Longrightarrow> I (s\<lparr>search_index := ix\<rparr>)"
    and valid: "valid_root fs root_path"
    and entry: "I (entry_state s root_path q now)"
  shows "I (snd (search_files lib fs s root_path q now))"
proof -
  have a: "I (snd (search_with_index lib fs (entry_state s root_path q now) root_path q))"
    by (rule search_with_index_engine [of I, OF poll prog idx entry])
  have b: "I (snd (search_filesystem lib fs (entry_state s root_path q now) root_path q))"
    by (rule search_filesystem_engine [of I, OF poll prog idx entry])
  show ?thesis
    using valid a b
    unfolding search_files_def valid_root_def Let_def entry_state_def query_info_def
    by (simp add: search_failed_snd)
qed

section \<open>History, strategy and quick search\<close>

lemma snapshot_ok_refl: "snapshot_ok s s"
  by (simp add: snapshot_ok_def same_config_refl)

lemma snapshot_ok_is_set: "snapshot_ok s0 s \<Longrightarrow> is_set s = (c, s1) \<Longrightarrow> snapshot_ok s0 s1"
  by (auto simp: snapshot_ok_def same_config_def is_set_def split: option.splits nat.splits)

lemma snapshot_ok_index: "snapshot_ok s0 s \<Longrightarrow> snapshot_ok s0 (s\<lparr>search_index := ix\<rparr>)"
  by (simp add: snapshot_ok_def same_config_def)

lemma snapshot_ok_progress: "snapshot_ok s0 s \<Longrightarrow> snapshot_ok s0 (call_progress due a b s)"
proof -
  assume a: "snapshot_ok s0 s"
  then obtain ext where ext: "progress_log s = progress_log s0 @ ext"
    by (auto simp: snapshot_ok_def prefix_def)
  have h: "search_history s = search_history s0" using a by (simp add: snapshot_ok_def same_config_def)
  have "\<forall>entry \<in> set ext. snd (snd entry) = search_history s0"
    using a ext by (simp add: snapshot_ok_def)
  then show ?thesis
    using a ext h by (simp add: snapshot_ok_def same_config_def call_progress_def)
qed

lemma search_files_snapshot:
  assumes "valid_root fs root_path"
  shows "snapshot_ok (entry_state s root_path q now) (snd (search_files lib fs s root_path q now))"
  by (rule strategies_engine [where I = "snapshot_ok (entry_state s root_path q now)"])
     (erule snapshot_ok_is_set, assumption, erule snapshot_ok_progress, erule snapshot_ok_index,
      rule assms, rule snapshot_ok_refl)

text \<open>
  C2, as the code has it. \<open>search_files\<close> checks the root path first: for a root path
  that does not exist or is not a directory the call raises \<open>SearchError\<close> and leaves
  the engine, and so the history, as it was. For a root path that passes the checks,
  and whether the search then returns or raises, the history after the call is the
  history before it with the descriptor of the query appended and, when that passes
  \<open>max_history\<close>, the oldest entry dropped: it stays within \<open>max_history\<close> and ends with
  the descriptor. The append comes before the search: every call of the progress
  callback made by the search finds that history in the engine.
\<close>

theorem C2_history_after_validation:
  "(\<not> valid_root fs root_path \<longrightarrow>
      snd (search_files lib fs s root_path q now) = s \<and>
      (\<exists>msg. fst (search_files lib fs s root_path q now) = Inl (SearchError msg))) \<and>
   (valid_root fs root_path \<longrightarrow>
      search_history (snd (search_files lib fs s root_path q now)) =
        drop (if int (length (search_history s)) < max_history s then 0 else 1)
          (search_history s @ [query_info root_path q now]) \<and>
      (int (length (search_history s)) \<le> max_history s \<longrightarrow>
         int (length (search_history (snd (search_files lib fs s root_path q now))))
           \<le> max_history s) \<and>
      (0 < max_history s \<longrightarrow>
         last (search_history (snd (search_files lib fs s root_path q now))) =
           query_info root_path q now) \<and>
      prefix (progress_log s) (progress_log (snd (search_files lib fs s root_path q now))) \<and>
      (\<forall>entry \<in> set (drop (length (progress_log s))
                        (progress_log (snd (search_files lib fs s root_path q now)))).
         snd (snd entry) = search_history (snd (search_files lib fs s root_path q now))))"
proof -
  define s' where "s' = snd (search_files lib fs s root_path q now)"
  define info where "info = query_info root_path q now"
  define h where "h = drop (if int (length (search_history s)) < max_history s then 0 else 1)
          (search_history s @ [info])"
  have invalid: "snd (search_files lib fs s root_path q now) = s \<and>
      (\<exists>msg. fst (search_files lib fs s root_path q now) = Inl (SearchError msg))"
    if "\<not> valid_root fs root_path"
    using that by (auto simp: search_files_def valid_root_def)
  have entry_h: "search_history (entry_state s root_path q now) = h"
    unfolding h_def info_def entry_state_def add_to_history_def Let_def
    by (cases "search_history s") (auto simp: drop_Suc)
  have entry_log: "progress_log (entry_state s root_path q now) = progress_log s"
    by (simp add: entry_state_def add_to_history_def Let_def)
  have bound: "int (length h) \<le> max_history s" if "int (length (search_history s)) \<le> max_history s"
    using that unfolding h_def by auto
  have last_h: "last h = info" if "0 < max_history s"
  proof (cases "int (length (search_history s)) < max_history s")
    case True
    then show ?thesis unfolding h_def by simp
  next
    case False
    then have "search_history s \<noteq> []" using that by auto
    then show ?thesis using False unfolding h_def by (cases "search_history s") simp_all
  qed
  have valid: "search_history s' = h \<and> prefix (progress_log s) (progress_log s') \<and>
      (\<forall>entry \<in> set (drop (length (progress_log s)) (progress_log s')). snd (snd entry) = h)"
    if "valid_root fs root_path"
    using search_files_snapshot [OF that, of s q now lib]
    unfolding snapshot_ok_def same_config_def entry_h entry_log s'_def
    by simp
  show ?thesis
    using invalid valid bound last_h
    unfolding s'_def [symmetric] info_def [symmetric] h_def [symmetric]
    by (cases "valid_root fs root_path") simp_all
qed

text \<open>
  C8. For a valid root path, \<open>search_files\<close> runs the indexed strategy exactly when
  \<open>use_index\<close> is true, indexing is enabled and no content term was given (\<open>None\<close> or
  the empty string, which Python's \<open>not content_search\<close> treats alike); in every other
  case, so whenever a content term is present, it runs the walk of the file system.
  Either strategy starts from the engine with the flag cleared and the query in the
  history, and an exception that it raises comes out as \<open>SearchError\<close>.
\<close>

theorem C8_strategy_selection:
  "valid_root fs root_path \<Longrightarrow>
   (use_index q \<and> indexing_enabled s \<and> (content_search q = None \<or> content_search q = Some [])
      \<longrightarrow> search_files lib fs s root_path q now =
           search_failed (search_with_index lib fs (entry_state s root_path q now) root_path q)) \<and>
   (\<not> (use_index q \<and> indexing_enabled s \<and> (content_search q = None \<or> content_search q = Some []))
      \<longrightarrow> search_files lib fs s root_path q now =
           search_failed (search_filesystem lib fs (entry_state s root_path q now) root_path q))"
  by (auto simp: search_files_def valid_root_def entry_state_def query_info_def add_to_history_def
      Let_def)

lemma length_slice_to: "0 \<le> n \<Longrightarrow> int (length (slice_to xs n)) \<le> n"
  by (simp add: slice_to_def)

text \<open>
  C10. With indexing enabled and a root path that exists, \<open>quick_search\<close> returns the
  paths of \<open>SearchIndex.search(query)\<close>, cut by \<open>[:max_results]\<close> (at most
  \<open>max_results\<close> of them when that number is not negative), and leaves the engine as
  it was. The root path and the cancellation flag play no part: any other existing root
  and any state of the flag give the same paths.
\<close>

theorem C10_quick_search_indexed:
  "indexing_enabled s \<Longrightarrow> exists_path fs root_path \<Longrightarrow>
   quick_search lib fs s root_path query max_res =
     (Inr (slice_to (set_iter lib (search (search_index s) query)) max_res), s) \<and>
   (0 \<le> max_res \<longrightarrow>
      int (length (slice_to (set_iter lib (search (search_index s) query)) max_res)) \<le> max_res) \<and>
   (exists_path fs other_root \<longrightarrow>
      fst (quick_search lib fs (s\<lparr>cancel_event := flag, pending_cancel := pc\<rparr>) other_root query max_res)
      = fst (quick_search lib fs s root_path query max_res))"
  by (simp add: quick_search_def length_slice_to)

section \<open>Content search\<close>

lemma process_file_unfold:
  "process_file lib fs s file_path q results =
     (case matches_criteria_try lib fs file_path q of
        Inl e \<Rightarrow> Inl e
      | Inr passed \<Rightarrow>
          if \<not> passed then Inr (False, results)
          else (case fs_stat fs file_path of
                  None \<Rightarrow> Inl (OSError file_path)
                | Some st \<Rightarrow>
                    (case fromtimestamp lib (st_mtime st) of
                       Inl e \<Rightarrow> Inl e
                     | Inr file_date \<Rightarrow>
                         content_block lib fs s file_path q st file_date results)))"
  unfolding process_file_def matches_criteria_try_def Let_def
  by (simp split: sum.splits option.splits)

lemma sublist_in_context: "sublist x ys \<Longrightarrow> sublist x (ps @ ys @ ss)"
  unfolding sublist_def by (metis append.assoc)

lemma sublist_lower: "sublist xs ys \<Longrightarrow> sublist (lower xs) (lower ys)"
  unfolding sublist_def lower_def by (metis map_append)

lemma sublist_case_adjust: "sublist xs ys \<Longrightarrow> sublist (case_adjust cs xs) (case_adjust cs ys)"
  by (simp add: case_adjust_def sublist_lower)

lemma split_acc_sublist: "x \<in> set (split_acc cur str) \<Longrightarrow> sublist x (cur @ str)"
proof (induction str arbitrary: cur)
  case Nil
  then show ?case by simp
next
  case (Cons c cs)
  show ?case
  proof (cases "c = CHR 0x0A")
    case True
    then have "x = cur \<or> x \<in> set (split_acc [] cs)" using Cons.prems by simp
    then show ?thesis
    proof
      assume "x = cur"
      then show ?thesis by (simp add: sublist_append_rightI)
    next
      assume "x \<in> set (split_acc [] cs)"
      then have "sublist x cs" using Cons.IH [of "[]"] by simp
      then have "sublist x ((cur @ [c]) @ cs @ [])" by (rule sublist_in_context)
      then show ?thesis by simp
    qed
  next
    case False
    then have "x \<in> set (split_acc (cur @ [c]) cs)" using Cons.prems by simp
    then show ?thesis using Cons.IH [of "cur @ [c]"] by simp
  qed
qed

lemma split_acc_nonempty: "split_acc cur str \<noteq> []"
  by (induction str arbitrary: cur) auto

lemma split_acc_last_suffix: "suffix (last (split_acc cur str)) (cur @ str)"
proof (induction str arbitrary: cur)
  case Nil
  then show ?case by simp
next
  case (Cons c cs)
  show ?case
  proof (cases "c = CHR 0x0A")
    case True
    have "suffix (last (split_acc [] cs)) cs" using Cons.IH [of "[]"] by simp
    then have "suffix (last (split_acc [] cs)) ((cur @ [c]) @ cs)" by (rule suffix_appendI)
    then show ?thesis using True split_acc_nonempty by simp
  next
    case False
    then show ?thesis using Cons.IH [of "cur @ [c]"] by simp
  qed
qed

lemma scan_lines_none:
  "(\<And>l. l \<in> set lines \<Longrightarrow> \<not> py_in st (case_adjust cs l)) \<Longrightarrow>
   \<exists>n'. scan_lines st cs lines n = Inr n'"
  by (induction lines arbitrary: n) (auto simp: Let_def case_adjust_def)

lemma f_read_prefix:
  "f_read csize remaining @ drop (length (f_read csize remaining)) remaining = remaining"
  by (auto simp: f_read_def min_def)

lemma read_loop_none:
  "\<not> sublist st (case_adjust cs (buffer @ remaining)) \<Longrightarrow>
   read_loop csize st cs remaining buffer n = (None, None)"
proof (induction csize st cs remaining buffer n rule: read_loop.induct)
  case (1 csize st cs remaining buffer n)
  define chunk where "chunk = f_read csize remaining"
  have rem: "remaining = chunk @ drop (length chunk) remaining"
    unfolding chunk_def by (simp add: f_read_prefix)
  show ?case
  proof (cases "chunk = []")
    case True
    have "sublist buffer (buffer @ remaining)" by (simp add: sublist_append_rightI)
    then have "\<not> sublist st (case_adjust cs buffer)"
      using "1.prems" sublist_case_adjust sublist_order.order_trans by blast
    then show ?thesis
      using True
      by (subst read_loop.simps) (simp add: chunk_def [symmetric] py_in_sublist case_adjust_def)
  next
    case False
    define lines where "lines = split_nl (buffer @ chunk)"
    have sub_all: "sublist (buffer @ chunk) (buffer @ remaining)"
    proof -
      have "sublist (buffer @ chunk) ([] @ (buffer @ chunk) @ drop (length chunk) remaining)"
        by (rule sublist_appendI)
      then show ?thesis using rem by simp
    qed
    have no_line: "\<not> py_in st (case_adjust cs l)" if "l \<in> set (butlast lines)" for l
    proof -
      have "l \<in> set lines" using that by (rule in_set_butlastD)
      then have "sublist l (buffer @ chunk)"
        unfolding lines_def split_nl_def using split_acc_sublist [of l "[]" "buffer @ chunk"] by simp
      then have "sublist l (buffer @ remaining)" using sub_all sublist_order.order_trans by blast
      then show ?thesis
        using "1.prems" sublist_case_adjust sublist_order.order_trans py_in_sublist by blast
    qed
    obtain n' where scan: "scan_lines st cs (butlast lines) n = Inr n'"
      using scan_lines_none [of "butlast lines" st cs n] no_line by blast
    have "suffix (last lines) (buffer @ chunk)"
      unfolding lines_def split_nl_def using split_acc_last_suffix [of "[]" "buffer @ chunk"] by simp
    then obtain pre where pre: "buffer @ chunk = pre @ last lines" by (auto simp: suffix_def)
    have "buffer @ remaining = pre @ (last lines @ drop (length chunk) remaining)"
      by (subst rem) (use pre in simp)
    then have "sublist (last lines @ drop (length chunk) remaining) (buffer @ remaining)"
      by simp
    then have next_ok: "\<not> sublist st (case_adjust cs (last lines @ drop (length chunk) remaining))"
      using "1.prems" sublist_case_adjust sublist_order.order_trans by blast
    have "read_loop csize st cs (drop (length chunk) remaining) (last lines) n' = (None, None)"
      using "1.IH" [of n'] False scan next_ok
      by (simp add: chunk_def lines_def)
    then show ?thesis
      using False scan
      by (subst read_loop.simps) (simp add: chunk_def [symmetric] lines_def [symmetric])
  qed
qed

lemma search_in_file_none:
  "\<not> content_has_term fs file_path cs ct \<Longrightarrow>
   search_in_file_optimized fs s file_path ct cs = (None, None)"
  unfolding search_in_file_optimized_def content_has_term_def Let_def
  using read_loop_none [of "case_adjust cs ct" cs "[]" _ "chunk_size s" 0]
  by (auto simp: case_adjust_def split: option.splits)


lemma matches_criteria_try_True:
  assumes "matches_criteria lib fs file_path q = Inr True"
  shows "matches_criteria_try lib fs file_path q = Inr True"
  using assms unfolding matches_criteria_def
  by (auto split: sum.splits if_splits)

lemma matches_criteria_True_stat:
  assumes "matches_criteria lib fs file_path q = Inr True"
  shows "\<exists>st d. fs_stat fs file_path = Some st \<and> fromtimestamp lib (st_mtime st) = Inr d"
proof -
  have t: "matches_criteria_try lib fs file_path q = Inr True"
    using assms by (rule matches_criteria_try_True)
  show ?thesis
  proof (cases "fs_stat fs file_path")
    case None
    then show ?thesis
      using t unfolding matches_criteria_try_def Let_def
      by (auto split: sum.splits if_splits)
  next
    case (Some st)
    show ?thesis
    proof (cases "fromtimestamp lib (st_mtime st)")
      case (Inl e)
      then show ?thesis
        using t Some unfolding matches_criteria_try_def Let_def
        by (auto split: sum.splits if_splits)
    next
      case (Inr d)
      then show ?thesis using Some by simp
    qed
  qed
qed

lemma process_file_passed:
  assumes "matches_criteria lib fs file_path q = Inr True"
    and "fs_stat fs file_path = Some st"
    and "fromtimestamp lib (st_mtime st) = Inr d"
  shows "process_file lib fs s file_path q results =
         content_block lib fs s file_path q st d results"
  using assms(2,3)
  by (simp add: process_file_unfold matches_criteria_try_True [OF assms(1)])

lemma content_block_fallback:
  assumes "content_search q = Some ct" and "ct \<noteq> []"
    and "st_size st \<le> max_file_size_for_content_search s"
    and "\<not> content_has_term fs file_path (case_sensitive q) ct"
  shows "content_block lib fs s file_path q st d results =
     (case match_pattern lib (basename file_path) ct (case_sensitive q) (regex q) of
        Inl e \<Rightarrow> Inl e
      | Inr matched \<Rightarrow>
          if matched
          then Inr (True, results @ [make_result file_path st d ''filename'' None None])
          else Inr (False, results))"
proof -
  have none: "search_in_file_optimized fs s file_path ct (case_sensitive q) = (None, None)"
    using assms(4) by (rule search_in_file_none)
  show ?thesis
    using assms(1-3) none
    by (simp add: content_block_def split: sum.splits)
qed

lemma content_block_small_or_filename:
  assumes "content_block lib fs s file_path q st d results = Inr (accepted, results')"
    and "fs_stat fs file_path = Some st"
    and "\<forall>r \<in> set results. small_or_filename fs (max_file_size_for_content_search s) r"
  shows "\<forall>r \<in> set results'. small_or_filename fs (max_file_size_for_content_search s) r"
  using assms
  unfolding content_block_def
  by (auto simp: small_or_filename_def make_result_def
      split: if_splits option.splits prod.splits sum.splits)

lemma process_file_small_or_filename:
  assumes "process_file lib fs s file_path q results = Inr (accepted, results')"
    and "\<forall>r \<in> set results. small_or_filename fs (max_file_size_for_content_search s) r"
  shows "\<forall>r \<in> set results'. small_or_filename fs (max_file_size_for_content_search s) r"
proof (cases "matches_criteria_try lib fs file_path q")
  case (Inl e)
  then show ?thesis using assms by (simp add: process_file_unfold)
next
  case (Inr passed)
  show ?thesis
  proof (cases passed)
    case False
    then show ?thesis using assms Inr by (simp add: process_file_unfold)
  next
    case True
    show ?thesis
    proof (cases "fs_stat fs file_path")
      case None
      then show ?thesis using assms Inr True by (simp add: process_file_unfold)
    next
      case (Some st)
      show ?thesis
      proof (cases "fromtimestamp lib (st_mtime st)")
        case (Inl e)
        then show ?thesis using assms Inr True Some by (simp add: process_file_unfold)
      next
        case d: (Inr d)
        have "content_block lib fs s file_path q st d results = Inr (accepted, results')"
          using assms(1) Inr True Some d by (simp add: process_file_unfold)
        then show ?thesis using Some assms(2) by (rule content_block_small_or_filename)
      qed
    qed
  qed
qed

lemma results_ok_file_body:
  assumes "results_ok fs s0 st"
  shows "results_ok fs s0 (snd (file_body lib fs q dirpath tf f st))"
proof -
  obtain s r n where st: "st = (s, r, n)" by (cases st)
  define s2 where "s2 = call_progress (progress_callback q \<and> (n + 1) mod 50 = 0) (n + 1) tf s"
  have c2: "same_config s0 s2" using assms st by (simp add: results_ok_def s2_def same_config_progress)
  then have lim: "max_file_size_for_content_search s2 = max_file_size_for_content_search s0"
    by (simp add: same_config_def)
  have r_ok: "\<forall>x \<in> set r. small_or_filename fs (max_file_size_for_content_search s2) x"
    using assms st lim by (simp add: results_ok_def)
  show ?thesis
  proof (cases "process_file lib fs s2 (join dirpath f) q r")
    case (Inl e)
    then show ?thesis using st c2 r_ok lim by (simp add: results_ok_def s2_def [symmetric] Let_def)
  next
    case (Inr ar)
    obtain accepted r' where ar: "ar = (accepted, r')" by (cases ar)
    have "\<forall>x \<in> set r'. small_or_filename fs (max_file_size_for_content_search s2) x"
      using process_file_small_or_filename [of lib fs s2 "join dirpath f" q r accepted r'] Inr ar r_ok
      by simp
    then show ?thesis
      using st c2 lim Inr ar
      by (simp add: results_ok_def s2_def [symmetric] Let_def same_config_index)
  qed
qed

lemma results_ok_is_set:
  "results_ok fs s0 (s, r, n) \<Longrightarrow> is_set s = (c, s1) \<Longrightarrow> results_ok fs s0 (s1, r, n)"
  by (auto simp: results_ok_def intro: is_set_same_config)

lemma results_ok_dirs_loop:
  "results_ok fs s0 st \<Longrightarrow> results_ok fs s0 (snd (dirs_loop lib fs q tf triples st))"
  by (rule dirs_loop_invariant [where I = "results_ok fs s0"])
     (erule results_ok_is_set, assumption, erule results_ok_file_body, assumption)

lemma same_config_estimate_loop:
  "same_config s0 (snd st) \<Longrightarrow> same_config s0 (snd (estimate_loop triples st))"
  by (rule estimate_loop_invariant [where I = "same_config s0"])
     (erule is_set_same_config, assumption, assumption)

lemma results_ok_search_filesystem:
  assumes "fst (search_filesystem lib fs s root_path q) = Inr rs"
  shows "\<forall>r \<in> set rs. small_or_filename fs (max_file_size_for_content_search s) r"
proof -
  define st0 where "st0 = (if progress_callback q then estimate_file_count fs s root_path else (0, s))"
  have "same_config s (snd (estimate_loop (walk fs (\<lambda>d. True) root_path) (0, s)))"
    by (rule same_config_estimate_loop) (simp add: same_config_refl)
  then have e: "same_config s (snd st0)"
    unfolding st0_def estimate_file_count_def by (simp add: same_config_refl)
  then have "results_ok fs s (snd st0, [], 0)" by (simp add: results_ok_def)
  then have "results_ok fs s (snd (dirs_loop lib fs q (fst st0) (walk fs not_hidden root_path) (snd st0, [], 0)))"
    by (rule results_ok_dirs_loop)
  then show ?thesis
    using assms
    unfolding search_filesystem_def st0_def [symmetric] results_ok_def
    by (auto split: prod.splits option.splits)
qed

lemma candidate_body_filename:
  assumes "\<forall>r \<in> set (snd st). small_or_filename fs limit r"
  shows "\<forall>r \<in> set (snd (snd (candidate_body lib fs q n cand st))). small_or_filename fs limit r"
proof -
  obtain s r where st: "st = (s, r)" by (cases st)
  obtain i fp where cand: "cand = (i, fp)" by (cases cand)
  show ?thesis
    using assms unfolding st cand
    by (auto simp: small_or_filename_def make_result_def split: option.splits sum.splits)
qed

lemma candidates_loop_filename:
  assumes "\<forall>r \<in> set (snd st). small_or_filename fs limit r"
  shows "\<forall>r \<in> set (snd (snd (candidates_loop lib fs q n cands st))). small_or_filename fs limit r"
  by (rule candidates_loop_invariant
        [where I = "\<lambda>st. \<forall>r \<in> set (snd st). small_or_filename fs limit r"])
     (simp, erule candidate_body_filename, rule assms)

lemma results_ok_search_with_index:
  assumes "fst (search_with_index lib fs s root_path q) = Inr rs"
  shows "\<forall>r \<in> set rs. small_or_filename fs limit r"
proof -
  define s1 where "s1 = update_index fs s root_path (progress_callback q)"
  obtain c s2 where p: "is_set s1 = (c, s2)" by (cases "is_set s1")
  define cands where "cands = set_iter lib (search (search_index s2) (pattern q))"
  have "\<forall>r \<in> set (snd (snd (candidates_loop lib fs q (int (length cands)) (enumerate cands) (s2, [])))).
          small_or_filename fs limit r"
    by (rule candidates_loop_filename) simp
  then show ?thesis
    using assms p
    unfolding search_with_index_def s1_def [symmetric] Let_def
    by (auto simp: cands_def split: prod.splits option.splits if_splits)
qed

lemma search_failed_Inr:
  "fst (search_failed outcome) = Inr rs \<Longrightarrow> fst outcome = Inr rs"
  by (auto simp: search_failed_def split: prod.splits sum.splits)

text \<open>
  C7. Every result of \<open>search_files\<close> whose size exceeds
  \<open>max_file_size_for_content_search\<close> is a filename match, never a content match; the
  size of a result is the size that \<open>os.stat\<close> reports for its path.
\<close>

theorem C7_large_file_never_content:
  assumes "fst (search_files lib fs s root_path q now) = Inr rs"
    and "r \<in> set rs"
    and "size_f r > max_file_size_for_content_search s"
  shows "match_type r = ''filename'' \<and> match_type r \<noteq> ''content'' \<and>
         (\<exists>st. fs_stat fs (path r) = Some st \<and> st_size st = size_f r)"
proof -
  define s2 where "s2 = add_to_history (s\<lparr>cancel_event := False\<rparr>) (query_info root_path q now)"
  have lim: "max_file_size_for_content_search s2 = max_file_size_for_content_search s"
    by (simp add: s2_def add_to_history_def Let_def)
  have "fst (search_failed (search_with_index lib fs s2 root_path q)) = Inr rs \<or>
        fst (search_failed (search_filesystem lib fs s2 root_path q)) = Inr rs"
    using assms(1)
    unfolding search_files_def Let_def s2_def query_info_def
    by (auto split: if_splits)
  then have "fst (search_with_index lib fs s2 root_path q) = Inr rs \<or>
        fst (search_filesystem lib fs s2 root_path q) = Inr rs"
    using search_failed_Inr by blast
  then have "small_or_filename fs (max_file_size_for_content_search s) r"
    using assms(2) lim results_ok_search_filesystem [of lib fs s2 root_path q rs]
      results_ok_search_with_index [of lib fs s2 root_path q rs "max_file_size_for_content_search s"]
    by auto
  then show ?thesis using assms(3) by (auto simp: small_or_filename_def)
qed

section \<open>The walk of the file system\<close>

lemma quiet_is_set: "quiet s \<Longrightarrow> is_set s = (False, s)"
  by (simp add: quiet_def is_set_def)

lemma is_set_zero:
  "pending_cancel s = Some 0 \<Longrightarrow>
   is_set s = (True, s\<lparr>cancel_event := True, pending_cancel := None\<rparr>)"
  by (simp add: is_set_def)

lemma is_set_Suc:
  "\<not> cancel_event s \<Longrightarrow> pending_cancel s = Some (Suc k) \<Longrightarrow>
   is_set s = (False, s\<lparr>pending_cancel := Some k\<rparr>)"
  by (simp add: is_set_def)

lemma is_set_flag: "is_set s = (c, s1) \<Longrightarrow> cancel_event s1 = c \<and> (cancel_event s \<longrightarrow> c)"
  by (auto simp: is_set_def split: option.splits nat.splits)

lemma quiet_progress: "quiet s \<Longrightarrow> quiet (call_progress due a b s)"
  by (simp add: quiet_def call_progress_def)

lemma quiet_index: "quiet s \<Longrightarrow> quiet (s\<lparr>search_index := ix\<rparr>)"
  by (simp add: quiet_def)

lemma path_make_result: "path (make_result fp st d mt cm cl) = fp"
  by (simp add: make_result_def)

text \<open>\<open>_process_file\<close> reads two fields of the engine only.\<close>

lemma search_in_file_config:
  assumes "chunk_size s' = chunk_size s"
  shows "search_in_file_optimized fs s' fp ct cs = search_in_file_optimized fs s fp ct cs"
  unfolding search_in_file_optimized_def assms by (rule refl)

lemma content_block_config:
  assumes "chunk_size s' = chunk_size s"
    and "max_file_size_for_content_search s' = max_file_size_for_content_search s"
  shows "content_block lib fs s' fp q st d r = content_block lib fs s fp q st d r"
  unfolding content_block_def assms(2) search_in_file_config [OF assms(1)] by (rule refl)

lemma process_file_config:
  assumes "chunk_size s' = chunk_size s"
    and "max_file_size_for_content_search s' = max_file_size_for_content_search s"
  shows "process_file lib fs s' fp q r = process_file lib fs s fp q r"
  unfolding process_file_unfold content_block_config [OF assms] by (rule refl)

lemma process_file_same_config:
  "same_config s s' \<Longrightarrow> process_file lib fs s' fp q r = process_file lib fs s fp q r"
  by (rule process_file_config) (simp_all add: same_config_def)

lemma scan_files_config:
  assumes "chunk_size s' = chunk_size s"
    and "max_file_size_for_content_search s' = max_file_size_for_content_search s"
  shows "scan_files lib fs s' q r xs = scan_files lib fs s q r xs"
proof (induction xs arbitrary: r)
  case Nil
  then show ?case by simp
next
  case (Cons p rest)
  show ?case
    unfolding scan_files.simps process_file_config [OF assms] Cons.IH by (rule refl)
qed

lemma scan_files_capped:
  "int (length r) \<ge> max_results q \<Longrightarrow> scan_files lib fs s q r xs = Inr r"
  by (cases xs) simp_all

lemma scan_files_append:
  "scan_files lib fs s q r (xs @ ys) =
     (case scan_files lib fs s q r xs of
        Inl e \<Rightarrow> Inl e
      | Inr r1 \<Rightarrow> scan_files lib fs s q r1 ys)"
proof (induction xs arbitrary: r)
  case Nil
  then show ?case by simp
next
  case (Cons p rest)
  show ?case
  proof (cases "int (length r) \<ge> max_results q")
    case True
    then show ?thesis by (simp add: scan_files_capped)
  next
    case False
    show ?thesis
    proof (cases "process_file lib fs s p q r")
      case (Inl e)
      then show ?thesis using False Cons.IH by simp
    next
      case (Inr ar)
      obtain a r1 where ar: "ar = (a, r1)" by (cases ar)
      show ?thesis using False Inr ar Cons.IH by simp
    qed
  qed
qed

text \<open>The body of the inner loop leaves the flag alone and does what one step of
  the scan does.\<close>

lemma file_body_step:
  assumes "file_body lib fs q d tf f (s, r, n) = (eo, s', r', n')"
  shows "cancel_event s' = cancel_event s \<and> pending_cancel s' = pending_cancel s \<and>
         same_config s s' \<and>
         (case process_file lib fs s (join d f) q r of
            Inl e \<Rightarrow> eo = (if is_OSError e then None else Some e) \<and> r' = r
          | Inr ar \<Rightarrow> eo = None \<and> r' = snd ar)"
proof -
  define s2 where "s2 = call_progress (progress_callback q \<and> (n + 1) mod 50 = 0) (n + 1) tf s"
  have c2: "same_config s s2" by (simp add: s2_def same_config_def call_progress_def)
  have f2: "cancel_event s2 = cancel_event s" "pending_cancel s2 = pending_cancel s"
    by (simp_all add: s2_def call_progress_def)
  have pf: "process_file lib fs s2 (join d f) q r = process_file lib fs s (join d f) q r"
    using c2 by (rule process_file_same_config)
  have b: "(eo, s', r', n') =
      (case process_file lib fs s (join d f) q r of
         Inl e \<Rightarrow> (if is_OSError e then None else Some e, s2, r, n + 1)
       | Inr (accepted, r1) \<Rightarrow>
           (None,
            if accepted \<and> indexing_enabled s2
            then s2\<lparr>search_index := add_file fs (search_index s2) (join d f)\<rparr> else s2,
            r1, n + 1))"
    using assms unfolding pf [symmetric] s2_def by (simp add: Let_def)
  show ?thesis
  proof (cases "process_file lib fs s (join d f) q r")
    case (Inl e)
    then show ?thesis using b c2 f2 by simp
  next
    case (Inr ar)
    obtain a r1 where ar: "ar = (a, r1)" by (cases ar)
    have "same_config s (s2\<lparr>search_index := ix\<rparr>)" for ix
      using c2 by (simp add: same_config_def)
    then show ?thesis using b c2 f2 Inr ar by (cases "a \<and> indexing_enabled s2") simp_all
  qed
qed

lemma files_loop_capped:
  assumes "int (length r) \<ge> max_results q"
  shows "\<exists>s'. files_loop lib fs q d tf fnames (s, r, n) = (None, s', r, n)"
proof (cases fnames)
  case Nil
  then show ?thesis by simp
next
  case (Cons f rest)
  obtain c s1 where p: "is_set s = (c, s1)" by (cases "is_set s")
  show ?thesis using Cons p assms by simp
qed

lemma dirs_loop_capped:
  "int (length r) \<ge> max_results q \<Longrightarrow>
   \<exists>s'. dirs_loop lib fs q tf triples (s, r, n) = (None, s', r, n)"
proof (induction triples arbitrary: s)
  case Nil
  then show ?case by simp
next
  case (Cons tr rest)
  obtain d ds fnames where tr: "tr = (d, ds, fnames)" by (cases tr)
  obtain c s1 where p: "is_set s = (c, s1)" by (cases "is_set s")
  obtain s2 where l: "files_loop lib fs q d tf fnames (s1, r, n) = (None, s2, r, n)"
    using files_loop_capped [OF Cons.prems] by blast
  obtain s3 where ih: "dirs_loop lib fs q tf rest (s2, r, n) = (None, s3, r, n)"
    using Cons.IH [OF Cons.prems] by blast
  show ?case using tr p l ih by (cases c) simp_all
qed

lemma dirs_loop_cancelled:
  assumes "cancel_event s"
  shows "\<exists>s'. dirs_loop lib fs q tf triples (s, r, n) = (None, s', r, n)"
proof (cases triples)
  case Nil
  then show ?thesis by simp
next
  case (Cons tr rest)
  obtain d ds fnames where tr: "tr = (d, ds, fnames)" by (cases tr)
  obtain c s1 where p: "is_set s = (c, s1)" by (cases "is_set s")
  have "c" using p assms is_set_flag by blast
  then show ?thesis using Cons tr p by simp
qed

text \<open>The inner loop, no cancellation pending.\<close>

lemma files_loop_quiet:
  "quiet s \<Longrightarrow> same_config s0 s \<Longrightarrow>
   files_loop lib fs q d tf fnames (s, r, n) = (eo, s', r', n') \<Longrightarrow>
   quiet s' \<and> same_config s0 s' \<and>
   scan_files lib fs s0 q r (map (join d) fnames) = (case eo of None \<Rightarrow> Inr r' | Some e \<Rightarrow> Inl e)"
proof (induction fnames arbitrary: s r n)
  case Nil
  then show ?case by simp
next
  case (Cons f rest)
  have poll: "is_set s = (False, s)" using Cons.prems(1) by (rule quiet_is_set)
  show ?case
  proof (cases "int (length r) \<ge> max_results q")
    case True
    then show ?thesis using Cons.prems poll by simp
  next
    case False
    obtain eo1 s2 r2 n2 where b: "file_body lib fs q d tf f (s, r, n) = (eo1, s2, r2, n2)"
      by (cases "file_body lib fs q d tf f (s, r, n)")
    note step = file_body_step [OF b]
    have q2: "quiet s2" using step Cons.prems(1) by (simp add: quiet_def)
    have c2: "same_config s0 s2" using step Cons.prems(2) same_config_trans by blast
    have pf: "process_file lib fs s (join d f) q r = process_file lib fs s0 (join d f) q r"
      using Cons.prems(2) by (rule process_file_same_config)
    show ?thesis
    proof (cases eo1)
      case (Some e)
      have "(eo, s', r', n') = (Some e, s2, r2, n2)"
        using Cons.prems(3) poll False b Some by simp
      moreover have "process_file lib fs s0 (join d f) q r = Inl e \<and> \<not> is_OSError e"
        using step Some unfolding pf by (auto split: sum.splits if_splits)
      ultimately show ?thesis using q2 c2 False by simp
    next
      case None
      have l: "files_loop lib fs q d tf rest (s2, r2, n2) = (eo, s', r', n')"
        using Cons.prems(3) poll False b None by simp
      have ih: "quiet s' \<and> same_config s0 s' \<and>
          scan_files lib fs s0 q r2 (map (join d) rest) = (case eo of None \<Rightarrow> Inr r' | Some e \<Rightarrow> Inl e)"
        by (rule Cons.IH [OF q2 c2 l])
      have "scan_files lib fs s0 q r (join d f # map (join d) rest) =
            scan_files lib fs s0 q r2 (map (join d) rest)"
        using step None False unfolding pf by (auto split: sum.splits if_splits)
      then show ?thesis using ih by simp
    qed
  qed
qed

text \<open>The inner loop when the flag is set after \<open>k\<close> more polls.\<close>

lemma files_loop_pending:
  "\<not> cancel_event s \<Longrightarrow> pending_cancel s = Some k \<Longrightarrow> same_config s0 s \<Longrightarrow>
   files_loop lib fs q d tf fnames (s, r, n) = (eo, s', r', n') \<Longrightarrow>
   same_config s0 s' \<and>
   scan_files lib fs s0 q r (map (join d) (take k fnames)) =
     (case eo of None \<Rightarrow> Inr r' | Some e \<Rightarrow> Inl e) \<and>
   (eo = None \<longrightarrow>
      int (length r') \<ge> max_results q \<or>
      (cancel_event s' \<and> k < length fnames) \<or>
      (\<not> cancel_event s' \<and> pending_cancel s' = Some (k - length fnames) \<and> length fnames \<le> k))"
proof (induction fnames arbitrary: s r n k)
  case Nil
  then show ?case by simp
next
  case (Cons f rest)
  show ?case
  proof (cases k)
    case 0
    have poll: "is_set s = (True, s\<lparr>cancel_event := True, pending_cancel := None\<rparr>)"
      using Cons.prems(2) 0 by (simp add: is_set_zero)
    have "(eo, s', r', n') = (None, s\<lparr>cancel_event := True, pending_cancel := None\<rparr>, r, n)"
      using Cons.prems(4) poll by simp
    then show ?thesis using 0 Cons.prems(3) by (simp add: same_config_def)
  next
    case (Suc k')
    define s1 where "s1 = s\<lparr>pending_cancel := Some k'\<rparr>"
    have poll: "is_set s = (False, s1)"
      using Cons.prems(1,2) Suc unfolding s1_def by (simp add: is_set_Suc)
    have c1: "same_config s0 s1" using Cons.prems(3) by (simp add: s1_def same_config_def)
    have f1: "\<not> cancel_event s1" "pending_cancel s1 = Some k'"
      using Cons.prems(1) by (simp_all add: s1_def)
    show ?thesis
    proof (cases "int (length r) \<ge> max_results q")
      case True
      then show ?thesis using Cons.prems(4) poll c1 Suc by simp
    next
      case False
      obtain eo1 s2 r2 n2 where b: "file_body lib fs q d tf f (s1, r, n) = (eo1, s2, r2, n2)"
        by (cases "file_body lib fs q d tf f (s1, r, n)")
      note step = file_body_step [OF b]
      have f2: "\<not> cancel_event s2" "pending_cancel s2 = Some k'" using step f1 by simp_all
      have c2: "same_config s0 s2" using step c1 same_config_trans by blast
      have pf: "process_file lib fs s1 (join d f) q r = process_file lib fs s0 (join d f) q r"
        using c1 by (rule process_file_same_config)
      show ?thesis
      proof (cases eo1)
        case (Some e)
        have "(eo, s', r', n') = (Some e, s2, r2, n2)"
          using Cons.prems(4) poll False b Some by simp
        moreover have "process_file lib fs s0 (join d f) q r = Inl e \<and> \<not> is_OSError e"
          using step Some unfolding pf by (auto split: sum.splits if_splits)
        ultimately show ?thesis using c2 False Suc by simp
      next
        case None
        have l: "files_loop lib fs q d tf rest (s2, r2, n2) = (eo, s', r', n')"
          using Cons.prems(4) poll False b None by simp
        have ih: "same_config s0 s' \<and>
            scan_files lib fs s0 q r2 (map (join d) (take k' rest)) =
              (case eo of None \<Rightarrow> Inr r' | Some e \<Rightarrow> Inl e) \<and>
            (eo = None \<longrightarrow>
               int (length r') \<ge> max_results q \<or>
               (cancel_event s' \<and> k' < length rest) \<or>
               (\<not> cancel_event s' \<and> pending_cancel s' = Some (k' - length rest) \<and> length rest \<le> k'))"
          by (rule Cons.IH [OF f2 c2 l])
        have "scan_files lib fs s0 q r (join d f # map (join d) (take k' rest)) =
              scan_files lib fs s0 q r2 (map (join d) (take k' rest))"
          using step None False unfolding pf by (auto split: sum.splits if_splits)
        then show ?thesis using ih Suc by simp
      qed
    qed
  qed
qed

lemma walked_files_Cons:
  "walked_files ((d, ds, fnames) # rest) = map (join d) fnames @ walked_files rest"
  by (simp add: walked_files_def)

lemma reached_files_0: "reached_files 0 triples = []"
  by (cases triples) simp_all

text \<open>The outer loop, no cancellation pending.\<close>

lemma dirs_loop_quiet:
  "quiet s \<Longrightarrow> same_config s0 s \<Longrightarrow>
   dirs_loop lib fs q tf triples (s, r, n) = (eo, s', r', n') \<Longrightarrow>
   scan_files lib fs s0 q r (walked_files triples) = (case eo of None \<Rightarrow> Inr r' | Some e \<Rightarrow> Inl e)"
proof (induction triples arbitrary: s r n)
  case Nil
  then show ?case by (simp add: walked_files_def)
next
  case (Cons tr rest)
  obtain d ds fnames where tr: "tr = (d, ds, fnames)" by (cases tr)
  have poll: "is_set s = (False, s)" using Cons.prems(1) by (rule quiet_is_set)
  obtain eo1 s2 r2 n2 where l: "files_loop lib fs q d tf fnames (s, r, n) = (eo1, s2, r2, n2)"
    by (cases "files_loop lib fs q d tf fnames (s, r, n)")
  have fl: "quiet s2 \<and> same_config s0 s2 \<and>
      scan_files lib fs s0 q r (map (join d) fnames) = (case eo1 of None \<Rightarrow> Inr r2 | Some e \<Rightarrow> Inl e)"
    by (rule files_loop_quiet [OF Cons.prems(1,2) l])
  show ?case
  proof (cases eo1)
    case (Some e)
    have "(eo, s', r', n') = (Some e, s2, r2, n2)"
      using Cons.prems(3) poll tr l Some by simp
    then show ?thesis using fl Some tr by (simp add: walked_files_Cons scan_files_append)
  next
    case None
    have d: "dirs_loop lib fs q tf rest (s2, r2, n2) = (eo, s', r', n')"
      using Cons.prems(3) poll tr l None by simp
    have "scan_files lib fs s0 q r2 (walked_files rest) = (case eo of None \<Rightarrow> Inr r' | Some e \<Rightarrow> Inl e)"
      using Cons.IH [OF _ _ d] fl by simp
    then show ?thesis using fl None tr by (simp add: walked_files_Cons scan_files_append)
  qed
qed

text \<open>The outer loop when the flag is set after \<open>k\<close> more polls.\<close>

lemma dirs_loop_pending:
  "\<not> cancel_event s \<Longrightarrow> pending_cancel s = Some k \<Longrightarrow> same_config s0 s \<Longrightarrow>
   dirs_loop lib fs q tf triples (s, r, n) = (eo, s', r', n') \<Longrightarrow>
   scan_files lib fs s0 q r (reached_files k triples) = (case eo of None \<Rightarrow> Inr r' | Some e \<Rightarrow> Inl e)"
proof (induction triples arbitrary: s r n k)
  case Nil
  then show ?case by simp
next
  case (Cons tr rest)
  obtain d ds fnames where tr: "tr = (d, ds, fnames)" by (cases tr)
  show ?case
  proof (cases k)
    case 0
    have poll: "is_set s = (True, s\<lparr>cancel_event := True, pending_cancel := None\<rparr>)"
      using Cons.prems(2) 0 by (simp add: is_set_zero)
    have "(eo, s', r', n') = (None, s\<lparr>cancel_event := True, pending_cancel := None\<rparr>, r, n)"
      using Cons.prems(4) poll tr by simp
    then show ?thesis using 0 by simp
  next
    case (Suc k')
    define s1 where "s1 = s\<lparr>pending_cancel := Some k'\<rparr>"
    have poll: "is_set s = (False, s1)"
      using Cons.prems(1,2) Suc unfolding s1_def by (simp add: is_set_Suc)
    have c1: "same_config s0 s1" using Cons.prems(3) by (simp add: s1_def same_config_def)
    have f1: "\<not> cancel_event s1" "pending_cancel s1 = Some k'"
      using Cons.prems(1) by (simp_all add: s1_def)
    obtain eo1 s2 r2 n2 where l: "files_loop lib fs q d tf fnames (s1, r, n) = (eo1, s2, r2, n2)"
      by (cases "files_loop lib fs q d tf fnames (s1, r, n)")
    have fl: "same_config s0 s2 \<and>
        scan_files lib fs s0 q r (map (join d) (take k' fnames)) =
          (case eo1 of None \<Rightarrow> Inr r2 | Some e \<Rightarrow> Inl e) \<and>
        (eo1 = None \<longrightarrow>
           int (length r2) \<ge> max_results q \<or>
           (cancel_event s2 \<and> k' < length fnames) \<or>
           (\<not> cancel_event s2 \<and> pending_cancel s2 = Some (k' - length fnames) \<and> length fnames \<le> k'))"
      by (rule files_loop_pending [OF f1 c1 l])
    have split: "scan_files lib fs s0 q r (reached_files k (tr # rest)) =
        (case scan_files lib fs s0 q r (map (join d) (take k' fnames)) of
           Inl e \<Rightarrow> Inl e
         | Inr r1 \<Rightarrow> scan_files lib fs s0 q r1 (reached_files (k' - length fnames) rest))"
      unfolding Suc tr by (simp add: scan_files_append)
    show ?thesis
    proof (cases eo1)
      case (Some e)
      have "(eo, s', r', n') = (Some e, s2, r2, n2)"
        using Cons.prems(4) poll tr l Some by simp
      then show ?thesis using fl Some split by simp
    next
      case None
      have d: "dirs_loop lib fs q tf rest (s2, r2, n2) = (eo, s', r', n')"
        using Cons.prems(4) poll tr l None by simp
      have first: "scan_files lib fs s0 q r (map (join d) (take k' fnames)) = Inr r2"
        using fl None by simp
      consider (cap) "int (length r2) \<ge> max_results q"
        | (stop) "cancel_event s2" "k' < length fnames"
        | (go) "\<not> cancel_event s2" "pending_cancel s2 = Some (k' - length fnames)"
        using fl None by blast
      then show ?thesis
      proof cases
        case cap
        obtain s3 where "dirs_loop lib fs q tf rest (s2, r2, n2) = (None, s3, r2, n2)"
          using dirs_loop_capped [OF cap] by blast
        then have "eo = None" "r' = r2" using d by simp_all
        then show ?thesis using split first cap by (simp add: scan_files_capped)
      next
        case stop
        obtain s3 where "dirs_loop lib fs q tf rest (s2, r2, n2) = (None, s3, r2, n2)"
          using dirs_loop_cancelled [OF stop(1)] by blast
        then have "eo = None" "r' = r2" using d by simp_all
        then show ?thesis using split first stop(2) by (simp add: reached_files_0)
      next
        case go
        have "scan_files lib fs s0 q r2 (reached_files (k' - length fnames) rest) =
              (case eo of None \<Rightarrow> Inr r' | Some e \<Rightarrow> Inl e)"
          using Cons.IH [OF go _ d] fl by simp
        then show ?thesis using split first by simp
      qed
    qed
  qed
qed

text \<open>The polls of the estimate.\<close>

lemma quiet_estimate_loop: "quiet (snd st) \<Longrightarrow> quiet (snd (estimate_loop triples st))"
  by (rule estimate_loop_invariant [where I = quiet]) (simp add: quiet_is_set, assumption)

lemma estimate_loop_pending:
  "\<not> cancel_event s \<Longrightarrow> pending_cancel s = Some k \<Longrightarrow>
   estimate_loop triples (c0, s) = (c', s') \<Longrightarrow>
   (if k < estimate_polls triples c0 then cancel_event s'
    else \<not> cancel_event s' \<and> pending_cancel s' = Some (k - estimate_polls triples c0))"
proof (induction triples arbitrary: s k c0)
  case Nil
  then show ?case by simp
next
  case (Cons tr rest)
  obtain d ds fnames where tr: "tr = (d, ds, fnames)" by (cases tr)
  show ?case
  proof (cases k)
    case 0
    have poll: "is_set s = (True, s\<lparr>cancel_event := True, pending_cancel := None\<rparr>)"
      using Cons.prems(2) 0 by (simp add: is_set_zero)
    have "s' = s\<lparr>cancel_event := True, pending_cancel := None\<rparr>"
      using Cons.prems(3) poll tr by simp
    then show ?thesis using 0 tr by simp
  next
    case (Suc k')
    define s1 where "s1 = s\<lparr>pending_cancel := Some k'\<rparr>"
    have poll: "is_set s = (False, s1)"
      using Cons.prems(1,2) Suc unfolding s1_def by (simp add: is_set_Suc)
    have f1: "\<not> cancel_event s1" "pending_cancel s1 = Some k'"
      using Cons.prems(1) by (simp_all add: s1_def)
    show ?thesis
    proof (cases "c0 + int (length fnames) > 10000")
      case True
      have "s' = s1" using Cons.prems(3) poll tr True by (simp add: Let_def)
      then show ?thesis using f1 Suc tr True by simp
    next
      case False
      have "estimate_loop rest (c0 + int (length fnames), s1) = (c', s')"
        using Cons.prems(3) poll tr False by (simp add: Let_def)
      then have "(if k' < estimate_polls rest (c0 + int (length fnames)) then cancel_event s'
          else \<not> cancel_event s' \<and>
               pending_cancel s' = Some (k' - estimate_polls rest (c0 + int (length fnames))))"
        by (rule Cons.IH [OF f1])
      then show ?thesis using Suc tr False by simp
    qed
  qed
qed

lemma search_filesystem_scan:
  assumes "\<not> cancel_event s"
  shows "fst (search_filesystem lib fs s root_path q) =
     (case scan_files lib fs s q [] (files_reached fs s q root_path) of
        Inl e \<Rightarrow> Inl (SearchError (''Filesystem search failed: '' @ error_str e))
      | Inr rs \<Rightarrow> Inr rs)"
proof -
  define st0 where "st0 = (if progress_callback q then estimate_file_count fs s root_path else (0, s))"
  obtain tf0 s0 where st0: "st0 = (tf0, s0)" by (cases st0)
  have "same_config s (snd (estimate_loop (walk fs (\<lambda>d. True) root_path) (0, s)))"
    by (rule same_config_estimate_loop) (simp add: same_config_refl)
  then have "same_config s (snd st0)"
    unfolding st0_def estimate_file_count_def by (simp add: same_config_refl)
  then have c0: "same_config s s0" using st0 by simp
  obtain eo s' r' n' where d:
    "dirs_loop lib fs q tf0 (walk fs not_hidden root_path) (s0, [], 0) = (eo, s', r', n')"
    by (cases "dirs_loop lib fs q tf0 (walk fs not_hidden root_path) (s0, [], 0)")
  have out: "fst (search_filesystem lib fs s root_path q) =
     (case eo of None \<Rightarrow> Inr r'
      | Some e \<Rightarrow> Inl (SearchError (''Filesystem search failed: '' @ error_str e)))"
    unfolding search_filesystem_def st0_def [symmetric] st0 using d
    by (simp split: option.splits)
  have "scan_files lib fs s q [] (files_reached fs s q root_path) =
        (case eo of None \<Rightarrow> Inr r' | Some e \<Rightarrow> Inl e)"
  proof (cases "pending_cancel s")
    case None
    then have qs: "quiet s" using assms by (simp add: quiet_def)
    have "quiet (snd (estimate_loop (walk fs (\<lambda>d. True) root_path) (0, s)))"
      by (rule quiet_estimate_loop) (use qs in simp)
    then have "quiet (snd st0)"
      unfolding st0_def estimate_file_count_def using qs by simp
    then have q0: "quiet s0" using st0 by simp
    show ?thesis
      using dirs_loop_quiet [OF q0 c0 d] None by (simp add: files_reached_def)
  next
    case (Some k)
    define e where "e = (if progress_callback q
      then estimate_polls (walk fs (\<lambda>d. True) root_path) 0 else 0)"
    have fr: "files_reached fs s q root_path = reached_files (k - e) (walk fs not_hidden root_path)"
      using Some by (simp add: files_reached_def e_def)
    have after: "if k < e then cancel_event s0
                 else \<not> cancel_event s0 \<and> pending_cancel s0 = Some (k - e)"
    proof (cases "progress_callback q")
      case True
      have "estimate_loop (walk fs (\<lambda>d. True) root_path) (0, s) = (tf0, s0)"
        using st0 True by (simp add: st0_def estimate_file_count_def)
      then show ?thesis
        using estimate_loop_pending [OF assms Some] True by (simp add: e_def)
    next
      case False
      then have "s0 = s" using st0 by (simp add: st0_def)
      then show ?thesis using False assms Some by (simp add: e_def)
    qed
    show ?thesis
    proof (cases "k < e")
      case True
      then have "cancel_event s0" using after by simp
      then obtain s3 where "dirs_loop lib fs q tf0 (walk fs not_hidden root_path) (s0, [], 0)
          = (None, s3, [], 0)"
        using dirs_loop_cancelled by blast
      then have "eo = None" "r' = []" using d by simp_all
      then show ?thesis using True fr by (simp add: reached_files_0)
    next
      case False
      then have "\<not> cancel_event s0" "pending_cancel s0 = Some (k - e)" using after by simp_all
      then show ?thesis using dirs_loop_pending [OF _ _ c0 d] fr by simp
    qed
  qed
  then show ?thesis unfolding out by (simp split: option.splits)
qed

lemma files_reached_entry:
  "files_reached fs (entry_state s root_path q now) q root_path = files_reached fs s q root_path"
  by (simp add: files_reached_def entry_state_def add_to_history_def Let_def)

lemma search_files_valid:
  "valid_root fs root_path \<Longrightarrow>
   search_files lib fs s root_path q now =
     search_failed (if indexed_strategy s q
                then search_with_index lib fs (entry_state s root_path q now) root_path q
                else search_filesystem lib fs (entry_state s root_path q now) root_path q)"
  by (auto simp: search_files_def valid_root_def indexed_strategy_def entry_state_def query_info_def
      add_to_history_def Let_def)

lemma fst_search_failed:
  "fst (search_failed outcome) =
     (case fst outcome of
        Inl e \<Rightarrow> Inl (SearchError (''Search operation failed: '' @ error_str e))
      | Inr rs \<Rightarrow> Inr rs)"
  by (auto simp: search_failed_def split: prod.splits sum.splits)

text \<open>What the walk of the file system returns, cancelled or not.\<close>

lemma search_files_walk:
  assumes "valid_root fs root_path" and "\<not> indexed_strategy s q"
  shows "fst (search_files lib fs s root_path q now) =
         walk_outcome (scan_files lib fs s q [] (files_reached fs s q root_path))"
proof -
  define s2 where "s2 = entry_state s root_path q now"
  have nc: "\<not> cancel_event s2" by (simp add: s2_def entry_state_def add_to_history_def Let_def)
  have cfg: "chunk_size s2 = chunk_size s"
    "max_file_size_for_content_search s2 = max_file_size_for_content_search s"
    by (simp_all add: s2_def entry_state_def add_to_history_def Let_def)
  have a: "fst (search_files lib fs s root_path q now) =
        (case fst (search_filesystem lib fs s2 root_path q) of
           Inl e \<Rightarrow> Inl (SearchError (''Search operation failed: '' @ error_str e))
         | Inr rs \<Rightarrow> Inr rs)"
    using assms by (simp add: search_files_valid s2_def [symmetric] fst_search_failed)
  have fr: "files_reached fs s2 q root_path = files_reached fs s q root_path"
    unfolding s2_def by (rule files_reached_entry)
  have b: "fst (search_filesystem lib fs s2 root_path q) =
     (case scan_files lib fs s q [] (files_reached fs s q root_path) of
        Inl e \<Rightarrow> Inl (SearchError (''Filesystem search failed: '' @ error_str e))
      | Inr rs \<Rightarrow> Inr rs)"
    unfolding search_filesystem_scan [OF nc] scan_files_config [OF cfg] fr by (rule refl)
  show ?thesis
  proof (cases "scan_files lib fs s q [] (files_reached fs s q root_path)")
    case (Inl e)
    then show ?thesis unfolding a b walk_outcome_def by simp
  next
    case (Inr rs)
    then show ?thesis unfolding a b walk_outcome_def by simp
  qed
qed

text \<open>\<open>_process_file\<close> appends at most one result, whose path is the path it was
  given, and what it appends does not depend on the results so far.\<close>

lemma content_block_append:
  "content_block lib fs s fp q st d r =
     (case content_block lib fs s fp q st d [] of
        Inl e \<Rightarrow> Inl e
      | Inr ar \<Rightarrow> Inr (fst ar, r @ snd ar))"
  unfolding content_block_def
  by (simp split: option.splits prod.splits sum.splits)

lemma process_file_append:
  "process_file lib fs s fp q r =
     (case process_file lib fs s fp q [] of
        Inl e \<Rightarrow> Inl e
      | Inr ar \<Rightarrow> Inr (fst ar, r @ snd ar))"
proof -
  have cb: "content_block lib fs s fp q st d r =
     (case content_block lib fs s fp q st d [] of
        Inl e \<Rightarrow> Inl e
      | Inr ar \<Rightarrow> Inr (fst ar, r @ snd ar))" for st d
    by (rule content_block_append)
  show ?thesis
  proof (cases "matches_criteria_try lib fs fp q")
    case (Inl e)
    then show ?thesis by (simp add: process_file_unfold)
  next
    case (Inr passed)
    show ?thesis
    proof (cases passed)
      case False
      then show ?thesis using Inr by (simp add: process_file_unfold)
    next
      case True
      show ?thesis
      proof (cases "fs_stat fs fp")
        case None
        then show ?thesis using Inr True by (simp add: process_file_unfold)
      next
        case (Some st)
        show ?thesis
        proof (cases "fromtimestamp lib (st_mtime st)")
          case (Inl e)
          then show ?thesis using Inr True Some by (simp add: process_file_unfold)
        next
          case d: (Inr d)
          show ?thesis
            unfolding process_file_unfold Inr using True Some d cb [of st d] by simp
        qed
      qed
    qed
  qed
qed

lemma content_block_shape:
  "content_block lib fs s fp q st d [] = Inr (a, out) \<Longrightarrow>
   (\<not> a \<and> out = []) \<or> (a \<and> (\<exists>res. out = [res] \<and> path res = fp))"
  unfolding content_block_def
  by (auto simp: path_make_result split: option.splits prod.splits sum.splits if_splits)

lemma process_file_shape:
  assumes "process_file lib fs s fp q [] = Inr (a, out)"
  shows "(\<not> a \<and> out = []) \<or> (a \<and> (\<exists>res. out = [res] \<and> path res = fp))"
proof (cases "matches_criteria_try lib fs fp q")
  case (Inl e)
  then show ?thesis using assms by (simp add: process_file_unfold)
next
  case (Inr passed)
  show ?thesis
  proof (cases passed)
    case False
    then show ?thesis using assms Inr by (simp add: process_file_unfold)
  next
    case True
    show ?thesis
    proof (cases "fs_stat fs fp")
      case None
      then show ?thesis using assms Inr True by (simp add: process_file_unfold)
    next
      case (Some st)
      show ?thesis
      proof (cases "fromtimestamp lib (st_mtime st)")
        case (Inl e)
        then show ?thesis using assms Inr True Some by (simp add: process_file_unfold)
      next
        case d: (Inr d)
        have "content_block lib fs s fp q st d [] = Inr (a, out)"
          using assms Inr True Some d by (simp add: process_file_unfold)
        then show ?thesis by (rule content_block_shape)
      qed
    qed
  qed
qed

lemma scan_files_step:
  assumes "\<not> int (length r) \<ge> max_results q"
  shows "scan_files lib fs s q r (p # rest) =
     (case process_file lib fs s p q [] of
        Inl e \<Rightarrow> if is_OSError e then scan_files lib fs s q r rest else Inl e
      | Inr ar \<Rightarrow> scan_files lib fs s q (r @ snd ar) rest)"
proof -
  have "scan_files lib fs s q r (p # rest) =
     (case process_file lib fs s p q r of
        Inl e \<Rightarrow> if is_OSError e then scan_files lib fs s q r rest else Inl e
      | Inr (accepted, results') \<Rightarrow> scan_files lib fs s q results' rest)"
    using assms by simp
  also have "\<dots> = (case process_file lib fs s p q [] of
        Inl e \<Rightarrow> if is_OSError e then scan_files lib fs s q r rest else Inl e
      | Inr ar \<Rightarrow> scan_files lib fs s q (r @ snd ar) rest)"
    by (subst process_file_append) (simp split: sum.splits prod.splits)
  finally show ?thesis .
qed

lemma scan_files_extends:
  "scan_files lib fs s q r xs = Inr rs \<Longrightarrow> prefix r rs"
proof (induction xs arbitrary: r)
  case Nil
  then show ?case by simp
next
  case (Cons p rest)
  show ?case
  proof (cases "int (length r) \<ge> max_results q")
    case True
    then show ?thesis using Cons.prems by simp
  next
    case False
    show ?thesis
    proof (cases "process_file lib fs s p q []")
      case (Inl e)
      have "scan_files lib fs s q r rest = Inr rs"
        using Cons.prems unfolding scan_files_step [OF False] Inl by (simp split: if_splits)
      then show ?thesis by (rule Cons.IH)
    next
      case (Inr ar)
      have "scan_files lib fs s q (r @ snd ar) rest = Inr rs"
        using Cons.prems unfolding scan_files_step [OF False] Inr by simp
      then have "prefix (r @ snd ar) rs" by (rule Cons.IH)
      then show ?thesis using append_prefixD by blast
    qed
  qed
qed

lemma scan_files_sound:
  "scan_files lib fs s q r xs = Inr rs \<Longrightarrow> x \<in> set rs \<Longrightarrow>
   x \<in> set r \<or> (\<exists>p \<in> set xs. process_file lib fs s p q [] = Inr (True, [x]))"
proof (induction xs arbitrary: r)
  case Nil
  then show ?case by simp
next
  case (Cons p rest)
  show ?case
  proof (cases "int (length r) \<ge> max_results q")
    case True
    then show ?thesis using Cons.prems by simp
  next
    case False
    show ?thesis
    proof (cases "process_file lib fs s p q []")
      case (Inl e)
      have "scan_files lib fs s q r rest = Inr rs"
        using Cons.prems(1) unfolding scan_files_step [OF False] Inl by (simp split: if_splits)
      then show ?thesis using Cons.IH [of r] Cons.prems(2) by auto
    next
      case (Inr ar)
      obtain a out where ar: "ar = (a, out)" by (cases ar)
      have sh: "(\<not> a \<and> out = []) \<or> (a \<and> (\<exists>res. out = [res] \<and> path res = p))"
        using Inr ar process_file_shape by blast
      have "scan_files lib fs s q (r @ out) rest = Inr rs"
        using Cons.prems(1) unfolding scan_files_step [OF False] Inr ar by simp
      then have "x \<in> set (r @ out) \<or>
          (\<exists>p \<in> set rest. process_file lib fs s p q [] = Inr (True, [x]))"
        using Cons.IH [of "r @ out"] Cons.prems(2) by blast
      then show ?thesis using sh Inr ar by auto
    qed
  qed
qed

lemma scan_files_complete:
  "scan_files lib fs s q r xs = Inr rs \<Longrightarrow> int (length rs) < max_results q \<Longrightarrow>
   p \<in> set xs \<Longrightarrow> process_file lib fs s p q [] = Inr (a, out) \<Longrightarrow> set out \<subseteq> set rs"
proof (induction xs arbitrary: r)
  case Nil
  then show ?case by simp
next
  case (Cons p' rest)
  have len: "length r \<le> length rs"
    using scan_files_extends [OF Cons.prems(1)] by (rule prefix_length_le)
  then have nocap: "\<not> int (length r) \<ge> max_results q" using Cons.prems(2) by linarith
  show ?case
  proof (cases "process_file lib fs s p' q []")
    case (Inl e)
    have rest: "scan_files lib fs s q r rest = Inr rs"
      using Cons.prems(1) unfolding scan_files_step [OF nocap] Inl by (simp split: if_splits)
    have "p \<noteq> p'" using Inl Cons.prems(4) by auto
    then have "p \<in> set rest" using Cons.prems(3) by simp
    then show ?thesis using Cons.IH [OF rest Cons.prems(2) _ Cons.prems(4)] by simp
  next
    case (Inr ar)
    have rest: "scan_files lib fs s q (r @ snd ar) rest = Inr rs"
      using Cons.prems(1) unfolding scan_files_step [OF nocap] Inr by simp
    show ?thesis
    proof (cases "p = p'")
      case True
      then have "snd ar = out" using Inr Cons.prems(4) by simp
      moreover have "set (r @ snd ar) \<subseteq> set rs"
        using scan_files_extends [OF rest] by (rule set_mono_prefix)
      ultimately show ?thesis by simp
    next
      case False
      then have "p \<in> set rest" using Cons.prems(3) by simp
      then show ?thesis using Cons.IH [OF rest Cons.prems(2) _ Cons.prems(4)] by simp
    qed
  qed
qed

lemma scan_files_no_error:
  "(\<And>p. p \<in> set xs \<Longrightarrow> \<not> file_error lib fs s q p) \<Longrightarrow>
   \<exists>rs. scan_files lib fs s q r xs = Inr rs"
proof (induction xs arbitrary: r)
  case Nil
  then show ?case by simp
next
  case (Cons p rest)
  have ih: "\<exists>rs. scan_files lib fs s q r' rest = Inr rs" for r'
    using Cons.IH [of r'] Cons.prems by simp
  have ne: "\<not> file_error lib fs s q p" using Cons.prems by simp
  show ?case
  proof (cases "int (length r) \<ge> max_results q")
    case True
    then show ?thesis by simp
  next
    case False
    show ?thesis
    proof (cases "process_file lib fs s p q []")
      case (Inl e)
      then have "is_OSError e" using ne by (simp add: file_error_def)
      then show ?thesis unfolding scan_files_step [OF False] Inl using ih by simp
    next
      case (Inr ar)
      show ?thesis unfolding scan_files_step [OF False] Inr using ih by simp
    qed
  qed
qed

lemma scan_files_prefix:
  assumes "prefix xs ys" and "scan_files lib fs s q r ys = Inr full"
  shows "\<exists>rs. scan_files lib fs s q r xs = Inr rs \<and> prefix rs full"
proof -
  obtain zs where ys: "ys = xs @ zs" using assms(1) by (auto simp: prefix_def)
  show ?thesis
  proof (cases "scan_files lib fs s q r xs")
    case (Inl e)
    then show ?thesis using assms(2) unfolding ys by (simp add: scan_files_append)
  next
    case (Inr rs)
    then have "scan_files lib fs s q rs zs = Inr full"
      using assms(2) unfolding ys by (simp add: scan_files_append)
    then have "prefix rs full" by (rule scan_files_extends)
    then show ?thesis using Inr by simp
  qed
qed

lemma reached_files_prefix: "prefix (reached_files k triples) (walked_files triples)"
proof (induction k triples rule: reached_files.induct)
  case (1 n)
  then show ?case by simp
next
  case (2 tr rest)
  then show ?case by simp
next
  case (3 n dirpath dirs fnames rest)
  show ?case
  proof (cases "n < length fnames")
    case True
    have "prefix (take n fnames) fnames" by (rule take_is_prefix)
    then have "prefix (map (join dirpath) (take n fnames)) (map (join dirpath) fnames)"
      by (rule map_mono_prefix)
    then show ?thesis using True by (simp add: walked_files_Cons reached_files_0)
  next
    case False
    then show ?thesis using 3 by (simp add: walked_files_Cons)
  qed
qed

lemma files_reached_prefix:
  "prefix (files_reached fs s q root_path) (walked_files (walk fs not_hidden root_path))"
  by (simp add: files_reached_def reached_files_prefix split: option.splits)

lemma files_reached_uncancelled:
  "files_reached fs (s\<lparr>pending_cancel := None\<rparr>) q root_path =
   walked_files (walk fs not_hidden root_path)"
  by (simp add: files_reached_def)

section \<open>Cancellation\<close>

lemma search_with_index_cancelled:
  "cancel_event (update_index fs s root_path (progress_callback q)) \<Longrightarrow>
   fst (search_with_index lib fs s root_path q) = Inr []"
proof -
  assume a: "cancel_event (update_index fs s root_path (progress_callback q))"
  obtain c s2 where p: "is_set (update_index fs s root_path (progress_callback q)) = (c, s2)"
    by (cases "is_set (update_index fs s root_path (progress_callback q))")
  have "c" using p a is_set_flag by blast
  then show ?thesis using p by (simp add: search_with_index_def Let_def)
qed

text \<open>
  C3, as the code has it. No strategy raises on cancellation. In the walk of the file
  system the call returns what the scan of the files reached before the flag was seen
  makes of them: the results accepted so far. The files reached are a prefix of the
  files of the walk; the call raises only if \<open>_process_file\<close> raises, on one of them,
  an exception other than \<open>OSError\<close>; and when the same call without the cancellation
  returns, the cancelled call returns a prefix of its results. In the indexed strategy,
  when the flag was seen set during the refresh of the index, the call returns the
  empty list.
\<close>

theorem C3_cancellation_returns_silently:
  assumes "valid_root fs root_path"
  shows "(\<not> indexed_strategy s q \<longrightarrow>
            fst (search_files lib fs s root_path q now) =
              walk_outcome (scan_files lib fs s q [] (files_reached fs s q root_path)) \<and>
            prefix (files_reached fs s q root_path) (walked_files (walk fs not_hidden root_path)) \<and>
            ((\<forall>p \<in> set (files_reached fs s q root_path). \<not> file_error lib fs s q p) \<longrightarrow>
               (\<exists>rs. fst (search_files lib fs s root_path q now) = Inr rs)) \<and>
            (\<forall>full. fst (search_files lib fs (s\<lparr>pending_cancel := None\<rparr>) root_path q now) = Inr full
               \<longrightarrow> (\<exists>rs. fst (search_files lib fs s root_path q now) = Inr rs \<and> prefix rs full))) \<and>
         (indexed_strategy s q \<and>
          cancel_event (update_index fs (entry_state s root_path q now) root_path (progress_callback q))
            \<longrightarrow> fst (search_files lib fs s root_path q now) = Inr [])"
proof -
  define xs where "xs = files_reached fs s q root_path"
  define ys where "ys = walked_files (walk fs not_hidden root_path)"
  have pre: "prefix xs ys" unfolding xs_def ys_def by (rule files_reached_prefix)
  have walk_case: "fst (search_files lib fs s root_path q now) = walk_outcome (scan_files lib fs s q [] xs) \<and>
      ((\<forall>p \<in> set xs. \<not> file_error lib fs s q p) \<longrightarrow>
         (\<exists>rs. fst (search_files lib fs s root_path q now) = Inr rs)) \<and>
      (\<forall>full. fst (search_files lib fs (s\<lparr>pending_cancel := None\<rparr>) root_path q now) = Inr full
         \<longrightarrow> (\<exists>rs. fst (search_files lib fs s root_path q now) = Inr rs \<and> prefix rs full))"
    if ni: "\<not> indexed_strategy s q"
  proof -
    have a: "fst (search_files lib fs s root_path q now) = walk_outcome (scan_files lib fs s q [] xs)"
      unfolding xs_def by (rule search_files_walk [OF assms ni])
    have ni': "\<not> indexed_strategy (s\<lparr>pending_cancel := None\<rparr>) q"
      using ni by (simp add: indexed_strategy_def)
    have cfg: "chunk_size (s\<lparr>pending_cancel := None\<rparr>) = chunk_size s"
      "max_file_size_for_content_search (s\<lparr>pending_cancel := None\<rparr>) =
       max_file_size_for_content_search s"
      by simp_all
    have b: "fst (search_files lib fs (s\<lparr>pending_cancel := None\<rparr>) root_path q now) =
             walk_outcome (scan_files lib fs s q [] ys)"
      unfolding search_files_walk [OF assms ni'] files_reached_uncancelled ys_def
        scan_files_config [OF cfg]
      by (rule refl)
    have c: "\<exists>rs. fst (search_files lib fs s root_path q now) = Inr rs"
      if ne: "\<forall>p \<in> set xs. \<not> file_error lib fs s q p"
    proof -
      obtain rs where "scan_files lib fs s q [] xs = Inr rs"
        using scan_files_no_error [of xs lib fs s q "[]"] ne by blast
      then show ?thesis unfolding a by (simp add: walk_outcome_def)
    qed
    have d: "\<exists>rs. fst (search_files lib fs s root_path q now) = Inr rs \<and> prefix rs full"
      if fl: "fst (search_files lib fs (s\<lparr>pending_cancel := None\<rparr>) root_path q now) = Inr full"
      for full
    proof -
      have "scan_files lib fs s q [] ys = Inr full"
        using fl unfolding b by (simp add: walk_outcome_def split: sum.splits)
      then obtain rs where "scan_files lib fs s q [] xs = Inr rs" "prefix rs full"
        using scan_files_prefix [OF pre] by blast
      then show ?thesis unfolding a by (simp add: walk_outcome_def)
    qed
    show ?thesis using a c d by blast
  qed
  have index_case: "fst (search_files lib fs s root_path q now) = Inr []"
    if "indexed_strategy s q"
      and "cancel_event (update_index fs (entry_state s root_path q now) root_path (progress_callback q))"
    using that(1) search_with_index_cancelled [OF that(2), of lib]
    by (simp add: search_files_valid [OF assms] fst_search_failed)
  show ?thesis
    using walk_case index_case pre unfolding xs_def ys_def by blast
qed

section \<open>Search by name\<close>

lemma take_full: "length xs = m \<Longrightarrow> take m (xs @ ys) = xs"
  by simp

lemma concat_map_filter_cases:
  "(\<And>x. x \<in> set xs \<Longrightarrow> P x \<Longrightarrow> f x = g x) \<Longrightarrow>
   (\<And>x. x \<in> set xs \<Longrightarrow> \<not> P x \<Longrightarrow> g x = []) \<Longrightarrow>
   concat (map f (filter P xs)) = concat (map g xs)"
  by (induction xs) auto

lemma walked_files_concat: "walked_files (concat xss) = concat (map walked_files xss)"
  by (induction xss) (simp_all add: walked_files_def)

lemma walked_files_os_walk:
  "walked_files (os_walk not_hidden dirpath t) = visible_files dirpath t"
proof (induction not_hidden dirpath t rule: os_walk.induct)
  case (1 dirpath fnames subs)
  have "concat (map (\<lambda>(d, t). walked_files (os_walk not_hidden (join dirpath d) t))
              (filter (\<lambda>(d, t). not_hidden d) subs)) =
        concat (map (\<lambda>(d, t). if startswith d ''.'' then [] else visible_files (join dirpath d) t) subs)"
  proof (rule concat_map_filter_cases)
    fix x assume x: "x \<in> set subs" "case x of (d, t) \<Rightarrow> not_hidden d"
    obtain d t where e: "x = (d, t)" by (cases x)
    have mem: "(d, t) \<in> set (filter (\<lambda>(d, t). not_hidden d) subs)" using x e by simp
    have "walked_files (os_walk not_hidden (join dirpath d) t) = visible_files (join dirpath d) t"
      by (rule "1" [OF mem refl])
    then show "(case x of (d, t) \<Rightarrow> walked_files (os_walk not_hidden (join dirpath d) t)) =
               (case x of (d, t) \<Rightarrow> if startswith d ''.'' then [] else visible_files (join dirpath d) t)"
      using x e by (simp add: not_hidden_def)
  next
    fix x assume x: "x \<in> set subs" "\<not> (case x of (d, t) \<Rightarrow> not_hidden d)"
    obtain d t where e: "x = (d, t)" by (cases x)
    show "(case x of (d, t) \<Rightarrow> if startswith d ''.'' then [] else visible_files (join dirpath d) t) = []"
      using x(2) unfolding e by (simp add: not_hidden_def)
  qed
  moreover have "(walked_files \<circ> (\<lambda>(d, t). os_walk not_hidden (join dirpath d) t)) =
        (\<lambda>(d, t). walked_files (os_walk not_hidden (join dirpath d) t))"
    by (auto simp: fun_eq_iff)
  ultimately show ?case
    by (simp only: os_walk.simps visible_files.simps walked_files_Cons walked_files_concat map_map)
qed


lemma process_file_name_only:
  "name_only q \<Longrightarrow>
   process_file lib fs s fp q results =
     (case match_pattern lib (basename fp) (pattern q) (case_sensitive q) (regex q) of
        Inl e \<Rightarrow> Inl e
      | Inr matched \<Rightarrow>
          if \<not> matched then Inr (False, results)
          else (case fs_stat fs fp of
                  None \<Rightarrow> Inl (OSError fp)
                | Some st \<Rightarrow>
                    (case fromtimestamp lib (st_mtime st) of
                       Inl e \<Rightarrow> Inl e
                     | Inr d \<Rightarrow>
                         Inr (True, results @ [make_result fp st d ''filename'' None None]))))"
  by (simp add: process_file_def name_only_def content_block_def Let_def
      split: option.splits sum.splits)

lemma process_file_hit:
  assumes "name_only q" and "\<not> raises lib fs q p" and "hit lib fs q p"
  shows "\<exists>res. process_file lib fs s p q [] = Inr (True, [res]) \<and> path res = p"
  using assms(2,3)
  unfolding process_file_name_only [OF assms(1)] raises_def hit_def
  by (auto simp: path_make_result split: option.splits sum.splits)

lemma process_file_miss:
  assumes "name_only q" and "\<not> raises lib fs q p" and "\<not> hit lib fs q p"
  shows "process_file lib fs s p q [] = Inr (False, []) \<or>
         (\<exists>e. process_file lib fs s p q [] = Inl e \<and> is_OSError e)"
  using assms(2,3)
  unfolding process_file_name_only [OF assms(1)] raises_def hit_def
  by (auto split: option.splits sum.splits)

lemma scan_files_name_only:
  assumes "name_only q"
  shows "(\<And>p. p \<in> set xs \<Longrightarrow> \<not> raises lib fs q p) \<Longrightarrow> length r \<le> nat (max_results q) \<Longrightarrow>
   \<exists>rs. scan_files lib fs s q r xs = Inr rs \<and>
        map path rs = take (nat (max_results q)) (map path r @ filter (hit lib fs q) xs)"
proof (induction xs arbitrary: r)
  case Nil
  then show ?case by simp
next
  case (Cons p rest)
  have nr: "\<not> raises lib fs q p" using Cons.prems(1) by simp
  have rest_ok: "\<And>p'. p' \<in> set rest \<Longrightarrow> \<not> raises lib fs q p'" using Cons.prems(1) by simp
  show ?case
  proof (cases "int (length r) \<ge> max_results q")
    case True
    then have "length (map path r) = nat (max_results q)" using Cons.prems(2) by simp
    then have "take (nat (max_results q)) (map path r @ filter (hit lib fs q) (p # rest)) = map path r"
      by (rule take_full)
    then show ?thesis using True by simp
  next
    case False
    note step = scan_files_step [OF False, of lib fs s p rest]
    show ?thesis
    proof (cases "hit lib fs q p")
      case True
      obtain res where res: "process_file lib fs s p q [] = Inr (True, [res])" "path res = p"
        using process_file_hit [OF assms nr True] by blast
      have len: "length (r @ [res]) \<le> nat (max_results q)" using False by simp
      obtain rs where rs: "scan_files lib fs s q (r @ [res]) rest = Inr rs"
        "map path rs = take (nat (max_results q))
           (map path (r @ [res]) @ filter (hit lib fs q) rest)"
        using Cons.IH [OF rest_ok len] by blast
      have "scan_files lib fs s q r (p # rest) = Inr rs" unfolding step res(1) using rs(1) by simp
      then show ?thesis using rs(2) res(2) True by simp
    next
      case miss: False
      obtain rs where rs: "scan_files lib fs s q r rest = Inr rs"
        "map path rs = take (nat (max_results q)) (map path r @ filter (hit lib fs q) rest)"
        using Cons.IH [OF rest_ok Cons.prems(2)] by blast
      have "scan_files lib fs s q r (p # rest) = Inr rs"
        using process_file_miss [OF assms nr miss, of s] rs(1) unfolding step by auto
      then show ?thesis using rs(2) miss by simp
    qed
  qed
qed

lemma files_reached_quiet:
  assumes "fs_lookup fs root_path = Directory t" and "pending_cancel s = None"
  shows "files_reached fs s q root_path = visible_files root_path t"
  using assms by (simp add: files_reached_def walk_def walked_files_os_walk)

lemma search_files_name_only:
  assumes "name_only q" and "\<not> use_index q"
    and "fs_lookup fs root_path = Directory t" and "pending_cancel s = None"
    and "\<forall>p \<in> set (visible_files root_path t). \<not> raises lib fs q p"
  shows "\<exists>rs. fst (search_files lib fs s root_path q now) = Inr rs \<and>
              map path rs = take (nat (max_results q)) (matching_files lib fs q root_path t)"
proof -
  have v: "valid_root fs root_path" using assms(3) by (simp add: valid_root_def exists_path_def isdir_def)
  have ni: "\<not> indexed_strategy s q" using assms(2) by (simp add: indexed_strategy_def)
  have w: "fst (search_files lib fs s root_path q now) =
           walk_outcome (scan_files lib fs s q [] (visible_files root_path t))"
    unfolding search_files_walk [OF v ni] files_reached_quiet [OF assms(3,4)] by (rule refl)
  obtain rs where rs: "scan_files lib fs s q [] (visible_files root_path t) = Inr rs"
    "map path rs = take (nat (max_results q))
       (map path [] @ filter (hit lib fs q) (visible_files root_path t))"
    using scan_files_name_only [OF assms(1), of "visible_files root_path t" lib fs "[]" s] assms(5)
    by auto
  show ?thesis using rs unfolding w by (simp add: walk_outcome_def matching_files_def)
qed

text \<open>
  C1, as the code has it. Take a root that is a directory with tree \<open>t\<close>, no
  cancellation, \<open>use_index = False\<close>, a name pattern, the regex flag as given and every
  other argument at its default, and suppose that on no file of \<open>t\<close> outside the
  hidden directories the match of the name or the conversion of the modification time
  raises. Then \<open>search_files\<close> returns results whose paths are, in the order of the
  walk, the first 1000 (the default of \<open>max_results\<close>) of the files of \<open>t\<close> that are
  not below a directory whose name starts with a dot, whose base name matches the
  pattern and on which \<open>os.stat\<close> succeeds; when there are at most 1000 such files, the
  paths returned are exactly those files.
\<close>

theorem C1_filesystem_search:
  assumes "fs_lookup fs root_path = Directory t" and "pending_cancel s = None"
    and "q = default_criteria\<lparr>pattern := P, regex := rx, use_index := False\<rparr>"
    and "\<forall>p \<in> set (visible_files root_path t). \<not> raises lib fs q p"
  shows "\<exists>rs. fst (search_files lib fs s root_path q now) = Inr rs \<and>
              map path rs = take 1000 (matching_files lib fs q root_path t) \<and>
              (length (matching_files lib fs q root_path t) \<le> 1000 \<longrightarrow>
                 path ` set rs = set (matching_files lib fs q root_path t))"
proof -
  have n: "name_only q" and u: "\<not> use_index q" and mx: "max_results q = 1000"
    unfolding assms(3) by (simp_all add: name_only_def default_criteria_def)
  obtain rs where rs: "fst (search_files lib fs s root_path q now) = Inr rs"
    and m: "map path rs = take (nat (max_results q)) (matching_files lib fs q root_path t)"
    using search_files_name_only [OF n u assms(1,2,4)] by blast
  have m': "map path rs = take 1000 (matching_files lib fs q root_path t)" using m mx by simp
  have "path ` set rs = set (matching_files lib fs q root_path t)"
    if "length (matching_files lib fs q root_path t) \<le> 1000"
  proof -
    have "set (map path rs) = set (matching_files lib fs q root_path t)" using m' that by simp
    then show ?thesis by simp
  qed
  then show ?thesis using rs m' by blast
qed

section \<open>The fallback of the content search\<close>

text \<open>
  C6, as the code has it. Take a file that passed the checks before the content
  search (name pattern, file type, size and date), a content term, and a size within
  the limit of the content search, and let the content of the file not contain the
  case-adjusted term. Then \<open>_process_file\<close> matches the name of the file against the
  content term as a pattern: it raises what the match raises, accepts the file as a
  filename match when the name matches, and rejects it otherwise. In the results of
  \<open>search_files\<close>, which walks the file system for such a query: when the name does
  not match, the file is not among the results; when it matches, every result for the
  file is that filename match, and the file is among the results if the walk reached
  it and returned fewer than \<open>max_results\<close> results.
\<close>

theorem C6_filename_fallback:
  assumes "matches_criteria lib fs file_path q = Inr True"
    and "content_search q = Some ct" and "ct \<noteq> []"
    and "fs_stat fs file_path = Some st"
    and "fromtimestamp lib (st_mtime st) = Inr d"
    and "st_size st \<le> max_file_size_for_content_search s"
    and "\<not> content_has_term fs file_path (case_sensitive q) ct"
  shows "process_file lib fs s file_path q results =
     (case match_pattern lib (basename file_path) ct (case_sensitive q) (regex q) of
        Inl e \<Rightarrow> Inl e
      | Inr matched \<Rightarrow>
          if matched
          then Inr (True, results @ [make_result file_path st d ''filename'' None None])
          else Inr (False, results)) \<and>
     (valid_root fs root_path \<and> fst (search_files lib fs s root_path q now) = Inr rs \<longrightarrow>
        (match_pattern lib (basename file_path) ct (case_sensitive q) (regex q) = Inr False \<longrightarrow>
           file_path \<notin> path ` set rs) \<and>
        (match_pattern lib (basename file_path) ct (case_sensitive q) (regex q) = Inr True \<longrightarrow>
           (\<forall>r \<in> set rs. path r = file_path \<longrightarrow>
              r = make_result file_path st d ''filename'' None None) \<and>
           (file_path \<in> set (files_reached fs s q root_path) \<and> int (length rs) < max_results q \<longrightarrow>
              make_result file_path st d ''filename'' None None \<in> set rs)))"
proof -
  define res where "res = make_result file_path st d ''filename'' None None"
  define m where "m = match_pattern lib (basename file_path) ct (case_sensitive q) (regex q)"
  have pf: "process_file lib fs s file_path q r =
     (case m of
        Inl e \<Rightarrow> Inl e
      | Inr matched \<Rightarrow> if matched then Inr (True, r @ [res]) else Inr (False, r))" for r
    unfolding process_file_passed [OF assms(1,4,5)] content_block_fallback [OF assms(2,3,6,7)]
      res_def m_def
    by (rule refl)
  have search: "(m = Inr False \<longrightarrow> file_path \<notin> path ` set rs) \<and>
        (m = Inr True \<longrightarrow>
           (\<forall>r \<in> set rs. path r = file_path \<longrightarrow> r = res) \<and>
           (file_path \<in> set (files_reached fs s q root_path) \<and> int (length rs) < max_results q \<longrightarrow>
              res \<in> set rs))"
    if v: "valid_root fs root_path" and out: "fst (search_files lib fs s root_path q now) = Inr rs"
  proof -
    have ni: "\<not> indexed_strategy s q" using assms(2,3) by (simp add: indexed_strategy_def)
    have sc: "scan_files lib fs s q [] (files_reached fs s q root_path) = Inr rs"
      using out unfolding search_files_walk [OF v ni]
      by (simp add: walk_outcome_def split: sum.splits)
    have accepted_from: "\<exists>p \<in> set (files_reached fs s q root_path).
        process_file lib fs s p q [] = Inr (True, [r]) \<and> path r = p" if mem: "r \<in> set rs" for r
    proof -
      obtain p where p: "p \<in> set (files_reached fs s q root_path)"
        "process_file lib fs s p q [] = Inr (True, [r])"
        using scan_files_sound [OF sc mem] by auto
      have "path r = p" using process_file_shape [OF p(2)] by simp
      then show ?thesis using p by blast
    qed
    have no: "file_path \<notin> path ` set rs" if mf: "m = Inr False"
    proof
      assume "file_path \<in> path ` set rs"
      then obtain r where "r \<in> set rs" "path r = file_path" by auto
      then have "process_file lib fs s file_path q [] = Inr (True, [r])"
        using accepted_from by blast
      then show False using pf [of "[]"] mf by simp
    qed
    have yes1: "r = res" if "m = Inr True" "r \<in> set rs" "path r = file_path" for r
    proof -
      have "process_file lib fs s file_path q [] = Inr (True, [r])"
        using accepted_from that(2,3) by blast
      then show ?thesis using pf [of "[]"] that(1) by simp
    qed
    have yes2: "res \<in> set rs"
      if "m = Inr True" "file_path \<in> set (files_reached fs s q root_path)"
        "int (length rs) < max_results q"
    proof -
      have "process_file lib fs s file_path q [] = Inr (True, [res])"
        using pf [of "[]"] that(1) by simp
      then have "set [res] \<subseteq> set rs" using scan_files_complete [OF sc that(3,2)] by blast
      then show ?thesis by simp
    qed
    show ?thesis using no yes1 yes2 by blast
  qed
  show ?thesis
    using pf [of results] search unfolding res_def m_def by blast
qed

section \<open>The engine on the small file system\<close>

lemma valid_demo_root: "valid_root demo_fs ''/root''"
  by (simp add: valid_root_def exists_path_def isdir_def demo_defs)

lemma valid_demo_root_future: "valid_root demo_fs_future ''/root''"
  by (simp add: valid_root_def exists_path_def isdir_def demo_fs_future_def demo_defs)

lemma invalid_demo_root: "\<not> valid_root demo_fs ''/nowhere''"
  by (simp add: valid_root_def exists_path_def isdir_def demo_defs)

lemma demo_eval_future:
  "fst (search_files demo_lib demo_fs_future SearchEngine_init ''/root''
         (default_criteria\<lparr>use_index := False\<rparr>) 7)
   = Inl (SearchError ''Search operation failed: Filesystem search failed: year is out of range'')"
  by code_simp

lemma demo_eval_progress:
  "progress_log (snd (search_files demo_lib demo_fs SearchEngine_init ''/root''
         (default_criteria\<lparr>pattern := ''*.txt'', progress_callback := True\<rparr>) 7))
   = [(0, 2, [\<lparr>h_pattern = ''*.txt'', h_content_search = None, h_timestamp = 7,
                h_root_path = ''/root'', h_file_type = None\<rparr>]),
      (0, 1, [\<lparr>h_pattern = ''*.txt'', h_content_search = None, h_timestamp = 7,
                h_root_path = ''/root'', h_file_type = None\<rparr>])]"
  by code_simp

theorem C2_history_after_validation_witness:
  "snd (search_files demo_lib demo_fs SearchEngine_init ''/nowhere'' default_criteria 7)
     = SearchEngine_init \<and>
   search_history (snd (search_files demo_lib demo_fs
       (SearchEngine_init\<lparr>search_history :=
          [\<lparr>h_pattern = ''*.c'', h_content_search = None, h_timestamp = 1,
            h_root_path = ''/root'', h_file_type = None\<rparr>,
           \<lparr>h_pattern = ''*.h'', h_content_search = None, h_timestamp = 2,
            h_root_path = ''/root'', h_file_type = None\<rparr>],
          max_history := 2\<rparr>)
       ''/root'' default_criteria 7)) =
     [\<lparr>h_pattern = ''*.h'', h_content_search = None, h_timestamp = 2,
       h_root_path = ''/root'', h_file_type = None\<rparr>,
      \<lparr>h_pattern = ''*'', h_content_search = None, h_timestamp = 7, h_root_path = ''/root'',
       h_file_type = None\<rparr>] \<and>
   fst (search_files demo_lib demo_fs_future SearchEngine_init ''/root''
         (default_criteria\<lparr>use_index := False\<rparr>) 7)
     = Inl (SearchError ''Search operation failed: Filesystem search failed: year is out of range'') \<and>
   search_history (snd (search_files demo_lib demo_fs_future SearchEngine_init ''/root''
         (default_criteria\<lparr>use_index := False\<rparr>) 7)) =
     [\<lparr>h_pattern = ''*'', h_content_search = None, h_timestamp = 7, h_root_path = ''/root'',
       h_file_type = None\<rparr>] \<and>
   progress_log (snd (search_files demo_lib demo_fs SearchEngine_init ''/root''
         (default_criteria\<lparr>pattern := ''*.txt'', progress_callback := True\<rparr>) 7))
     = [(0, 2, search_history (snd (search_files demo_lib demo_fs SearchEngine_init ''/root''
                 (default_criteria\<lparr>pattern := ''*.txt'', progress_callback := True\<rparr>) 7))),
        (0, 1, search_history (snd (search_files demo_lib demo_fs SearchEngine_init ''/root''
                 (default_criteria\<lparr>pattern := ''*.txt'', progress_callback := True\<rparr>) 7)))]"
proof -
  define old where "old =
          [\<lparr>h_pattern = ''*.c'', h_content_search = None, h_timestamp = 1,
            h_root_path = ''/root'', h_file_type = None\<rparr>,
           \<lparr>h_pattern = ''*.h'', h_content_search = None, h_timestamp = 2,
            h_root_path = ''/root'', h_file_type = None\<rparr>]"
  define qp where "qp = default_criteria\<lparr>pattern := ''*.txt'', progress_callback := True\<rparr>"
  define qf where "qf = default_criteria\<lparr>use_index := False\<rparr>"
  have a: "snd (search_files demo_lib demo_fs SearchEngine_init ''/nowhere'' default_criteria 7)
     = SearchEngine_init"
    using C2_history_after_validation [where fs = demo_fs and root_path = "''/nowhere''"
      and lib = demo_lib and s = SearchEngine_init and q = default_criteria and now = 7]
      invalid_demo_root by blast
  have "search_history (snd (search_files demo_lib demo_fs
       (SearchEngine_init\<lparr>search_history := old, max_history := 2\<rparr>) ''/root'' default_criteria 7)) =
     drop (if int (length (search_history (SearchEngine_init\<lparr>search_history := old, max_history := 2\<rparr>)))
              < max_history (SearchEngine_init\<lparr>search_history := old, max_history := 2\<rparr>)
           then 0 else 1)
       (search_history (SearchEngine_init\<lparr>search_history := old, max_history := 2\<rparr>)
          @ [query_info ''/root'' default_criteria 7])"
    using C2_history_after_validation [where fs = demo_fs and root_path = "''/root''" and lib = demo_lib
      and s = "SearchEngine_init\<lparr>search_history := old, max_history := 2\<rparr>"
      and q = default_criteria and now = 7]
      valid_demo_root by blast
  then have b: "search_history (snd (search_files demo_lib demo_fs
       (SearchEngine_init\<lparr>search_history := old, max_history := 2\<rparr>) ''/root'' default_criteria 7)) =
     [\<lparr>h_pattern = ''*.h'', h_content_search = None, h_timestamp = 2,
       h_root_path = ''/root'', h_file_type = None\<rparr>,
      \<lparr>h_pattern = ''*'', h_content_search = None, h_timestamp = 7, h_root_path = ''/root'',
       h_file_type = None\<rparr>]"
    by (simp add: old_def query_info_def default_criteria_def)
  have "search_history (snd (search_files demo_lib demo_fs_future SearchEngine_init ''/root'' qf 7)) =
     drop (if int (length (search_history SearchEngine_init)) < max_history SearchEngine_init
           then 0 else 1)
       (search_history SearchEngine_init @ [query_info ''/root'' qf 7])"
    using C2_history_after_validation [where fs = demo_fs_future and root_path = "''/root''"
      and lib = demo_lib and s = SearchEngine_init and q = qf and now = 7]
      valid_demo_root_future by blast
  then have c: "search_history (snd (search_files demo_lib demo_fs_future SearchEngine_init ''/root'' qf 7)) =
     [\<lparr>h_pattern = ''*'', h_content_search = None, h_timestamp = 7, h_root_path = ''/root'',
       h_file_type = None\<rparr>]"
    by (simp add: qf_def query_info_def default_criteria_def SearchEngine_init_def)
  have "\<forall>entry \<in> set (drop (length (progress_log SearchEngine_init))
            (progress_log (snd (search_files demo_lib demo_fs SearchEngine_init ''/root'' qp 7)))).
          snd (snd entry) =
          search_history (snd (search_files demo_lib demo_fs SearchEngine_init ''/root'' qp 7))"
    using C2_history_after_validation [where fs = demo_fs and root_path = "''/root''"
      and lib = demo_lib and s = SearchEngine_init and q = qp and now = 7]
      valid_demo_root by blast
  then have d: "progress_log (snd (search_files demo_lib demo_fs SearchEngine_init ''/root'' qp 7))
     = [(0, 2, search_history (snd (search_files demo_lib demo_fs SearchEngine_init ''/root'' qp 7))),
        (0, 1, search_history (snd (search_files demo_lib demo_fs SearchEngine_init ''/root'' qp 7)))]"
    unfolding qp_def demo_eval_progress by (simp add: SearchEngine_init_def)
  show ?thesis
    using a b c d demo_eval_future unfolding old_def qp_def qf_def by blast
qed


theorem C2_history_first_counterexample:
  "fst (search_files demo_lib demo_fs SearchEngine_init ''/nowhere'' default_criteria 7) =
     Inl (SearchError ''Root path does not exist: /nowhere'') \<and>
   search_history (snd (search_files demo_lib demo_fs SearchEngine_init ''/nowhere'' default_criteria 7)) = []"
  by (simp add: search_files_def exists_path_def demo_defs SearchEngine_init_def)

lemma demo_eval_large:
  "fst (search_files demo_lib demo_fs (SearchEngine_init\<lparr>max_file_size_for_content_search := 3\<rparr>)
         ''/root'' (default_criteria\<lparr>content_search := Some ''hello''\<rparr>) 0)
   = Inr [make_result ''/root/a.txt'' \<lparr>st_size = 5, st_mtime = 100\<rparr> 100 ''filename'' None None]"
  by code_simp

theorem C7_large_file_never_content_witness:
  "fst (search_files demo_lib demo_fs (SearchEngine_init\<lparr>max_file_size_for_content_search := 3\<rparr>)
         ''/root'' (default_criteria\<lparr>content_search := Some ''hello''\<rparr>) 0)
     = Inr [make_result ''/root/a.txt'' \<lparr>st_size = 5, st_mtime = 100\<rparr> 100 ''filename'' None None] \<and>
   size_f (make_result ''/root/a.txt'' \<lparr>st_size = 5, st_mtime = 100\<rparr> 100 ''filename'' None None) > 3 \<and>
   match_type (make_result ''/root/a.txt'' \<lparr>st_size = 5, st_mtime = 100\<rparr> 100 ''filename'' None None)
     \<noteq> ''content''"
  using C7_large_file_never_content [where lib = demo_lib and fs = demo_fs
      and s = "SearchEngine_init\<lparr>max_file_size_for_content_search := 3\<rparr>"
      and root_path = "''/root''" and q = "default_criteria\<lparr>content_search := Some ''hello''\<rparr>"
      and now = 0
      and rs = "[make_result ''/root/a.txt'' \<lparr>st_size = 5, st_mtime = 100\<rparr> 100 ''filename'' None None]"
      and r = "make_result ''/root/a.txt'' \<lparr>st_size = 5, st_mtime = 100\<rparr> 100 ''filename'' None None"]
    demo_eval_large
  by (simp add: make_result_def SearchEngine_init_def)

theorem C8_strategy_selection_witness:
  "search_files demo_lib demo_fs SearchEngine_init ''/root'' default_criteria 7 =
     search_failed (search_with_index demo_lib demo_fs
        (entry_state SearchEngine_init ''/root'' default_criteria 7) ''/root'' default_criteria) \<and>
   search_files demo_lib demo_fs SearchEngine_init ''/root''
       (default_criteria\<lparr>content_search := Some ''hello''\<rparr>) 7 =
     search_failed (search_filesystem demo_lib demo_fs
        (entry_state SearchEngine_init ''/root'' (default_criteria\<lparr>content_search := Some ''hello''\<rparr>) 7)
        ''/root'' (default_criteria\<lparr>content_search := Some ''hello''\<rparr>))"
  using C8_strategy_selection [where fs = demo_fs and root_path = "''/root''" and lib = demo_lib
      and s = SearchEngine_init and q = default_criteria and now = 7]
    C8_strategy_selection [where fs = demo_fs and root_path = "''/root''" and lib = demo_lib
      and s = SearchEngine_init and q = "default_criteria\<lparr>content_search := Some ''hello''\<rparr>"
      and now = 7]
    valid_demo_root
  by (simp add: default_criteria_def SearchEngine_init_def)

lemma demo_eval_index:
  "search (add_file demo_fs SearchIndex_init ''/root/a.txt'') ''txt'' = {''/root/a.txt''}"
  by (simp add: index_eval demo_defs)

theorem C10_quick_search_indexed_witness:
  "quick_search demo_lib demo_fs
     (SearchEngine_init\<lparr>search_index := add_file demo_fs SearchIndex_init ''/root/a.txt''\<rparr>)
     ''/root/b'' ''txt'' 100 =
   (Inr [''/root/a.txt''],
    SearchEngine_init\<lparr>search_index := add_file demo_fs SearchIndex_init ''/root/a.txt''\<rparr>)"
  using C10_quick_search_indexed [where fs = demo_fs and lib = demo_lib and root_path = "''/root/b''"
      and s = "SearchEngine_init\<lparr>search_index := add_file demo_fs SearchIndex_init ''/root/a.txt''\<rparr>"
      and query = "''txt''" and max_res = 100]
    demo_eval_index
  by (simp add: SearchEngine_init_def exists_path_def demo_lookup_def demo_fs_def demo_lib_def slice_to_def)

lemma demo_visible:
  "visible_files ''/root'' demo_tree = [''/root/a.txt'', ''/root/b/sub.py'']"
  by (simp add: demo_tree_def join_def startswith_def endswith_def)

theorem C1_filesystem_search_witness:
  "\<exists>rs. fst (search_files demo_lib demo_fs SearchEngine_init ''/root''
               (default_criteria\<lparr>pattern := ''*.txt'', regex := False, use_index := False\<rparr>) 0) = Inr rs \<and>
         map path rs = [''/root/a.txt''] \<and> path ` set rs = {''/root/a.txt''}"
  using C1_filesystem_search [where fs = demo_fs and root_path = "''/root''" and t = demo_tree
      and s = SearchEngine_init and P = "''*.txt''" and rx = False and lib = demo_lib and now = 0,
      OF _ _ refl]
  by (simp add: matching_files_def hit_def raises_def demo_visible default_criteria_def
      SearchEngine_init_def match_pattern_def basename_def lower_def lower_char_def demo_fs_def
      demo_lookup_def demo_stat_def demo_lib_def demo_fromtimestamp_def)

lemma glob_match_star: "glob_match x ''*''"
  by (induction x) auto

lemma big_visible: "visible_files ''/big'' big_tree = big_files"
  by (simp add: big_tree_def big_files_def big_name_def join_def startswith_def endswith_def)

lemma big_name_length: "length (big_name n) \<le> 66" if "n < 1001"
proof -
  have "n mod 40 < 40" by simp
  moreover have "n div 40 \<le> 25" using that by simp
  ultimately show ?thesis by (simp add: big_name_def)
qed

lemma big_name_inj: "big_name n = big_name m \<Longrightarrow> n = m"
proof -
  assume e: "big_name n = big_name m"
  have tw: "takeWhile (\<lambda>c. c = CHR ''f'') (big_name k) = replicate (Suc (k mod 40)) CHR ''f''" for k
    unfolding big_name_def by (subst takeWhile_append2) auto
  have "length (takeWhile (\<lambda>c. c = CHR ''f'') (big_name n)) =
        length (takeWhile (\<lambda>c. c = CHR ''f'') (big_name m))"
    using e by simp
  then have m: "n mod 40 = m mod 40" unfolding tw by simp
  have "length (big_name n) = length (big_name m)" using e by simp
  then have d: "n div 40 = m div 40" using m by (simp add: big_name_def)
  show ?thesis using m d by (metis div_mult_mod_eq)
qed

lemma big_distinct: "distinct big_files"
proof -
  have "inj (\<lambda>n. ''/big/'' @ big_name n)"
    by (rule injI) (simp add: big_name_inj)
  then show ?thesis
    unfolding big_files_def by (simp add: distinct_map inj_on_def)
qed

lemma big_hit:
  assumes "p \<in> set big_files"
  shows "hit demo_lib big_fs (default_criteria\<lparr>use_index := False\<rparr>) p \<and>
         \<not> raises demo_lib big_fs (default_criteria\<lparr>use_index := False\<rparr>) p"
  using assms
  by (simp add: hit_def raises_def big_fs_def match_pattern_def demo_lib_def lower_def
      lower_char_def glob_match_star default_criteria_def demo_fromtimestamp_def)

lemma demo_eval_dangling:
  "fst (search_files demo_lib demo_fs_dangling SearchEngine_init ''/root''
         (default_criteria\<lparr>use_index := False\<rparr>) 0)
   = Inr [make_result ''/root/a.txt'' \<lparr>st_size = 5, st_mtime = 100\<rparr> 100 ''filename'' None None]"
  by code_simp

lemma demo_eval_cancel_first:
  "fst (search_files demo_lib demo_fs (SearchEngine_init\<lparr>pending_cancel := Some 1\<rparr>) ''/root''
         (default_criteria\<lparr>use_index := False\<rparr>) 0) = Inr []"
  by code_simp

lemma demo_eval_regex_overflow:
  "fst (search_files demo_lib demo_fs SearchEngine_init ''/root''
         (default_criteria\<lparr>pattern := ''a{4294967296}'', regex := True, use_index := False\<rparr>) 0)
   = Inl (SearchError
       ''Search operation failed: Filesystem search failed: the repetition number is too large'')"
  by code_simp

lemma demo_eval_upper:
  "fst (search_files demo_lib demo_fs SearchEngine_init ''/root''
         (default_criteria\<lparr>pattern := ''*.TXT'', use_index := False\<rparr>) 0)
   = Inr [make_result ''/root/a.txt'' \<lparr>st_size = 5, st_mtime = 100\<rparr> 100 ''filename'' None None]"
  by code_simp

lemma demo_eval_future_0:
  "fst (search_files demo_lib demo_fs_future SearchEngine_init ''/root''
         (default_criteria\<lparr>use_index := False\<rparr>) 0)
   = Inl (SearchError ''Search operation failed: Filesystem search failed: year is out of range'')"
  by code_simp

theorem C1_result_cap_counterexample:
  "(\<exists>rs. fst (search_files demo_lib big_fs SearchEngine_init ''/big''
               (default_criteria\<lparr>use_index := False\<rparr>) 0) = Inr rs \<and>
         length rs = 1000 \<and>
         card (set (filter (\<lambda>p. glob_match (basename p) ''*'') (visible_files ''/big'' big_tree)))
           = 1001 \<and>
         path ` set rs \<noteq> set (filter (\<lambda>p. glob_match (basename p) ''*'')
                                 (visible_files ''/big'' big_tree))) \<and>
   (fst (search_files demo_lib demo_fs_dangling SearchEngine_init ''/root''
         (default_criteria\<lparr>use_index := False\<rparr>) 0)
      = Inr [make_result ''/root/a.txt'' \<lparr>st_size = 5, st_mtime = 100\<rparr> 100 ''filename'' None None] \<and>
    filter (\<lambda>p. glob_match (basename p) ''*'') (visible_files ''/root'' demo_tree)
      = [''/root/a.txt'', ''/root/b/sub.py'']) \<and>
   fst (search_files demo_lib demo_fs (SearchEngine_init\<lparr>pending_cancel := Some 1\<rparr>) ''/root''
         (default_criteria\<lparr>use_index := False\<rparr>) 0) = Inr [] \<and>
   fst (search_files demo_lib demo_fs_future SearchEngine_init ''/root''
         (default_criteria\<lparr>use_index := False\<rparr>) 0)
      = Inl (SearchError ''Search operation failed: Filesystem search failed: year is out of range'') \<and>
   fst (search_files demo_lib demo_fs SearchEngine_init ''/root''
         (default_criteria\<lparr>pattern := ''a{4294967296}'', regex := True, use_index := False\<rparr>) 0)
      = Inl (SearchError
          ''Search operation failed: Filesystem search failed: the repetition number is too large'') \<and>
   (fst (search_files demo_lib demo_fs SearchEngine_init ''/root''
         (default_criteria\<lparr>pattern := ''*.TXT'', use_index := False\<rparr>) 0)
      = Inr [make_result ''/root/a.txt'' \<lparr>st_size = 5, st_mtime = 100\<rparr> 100 ''filename'' None None] \<and>
    \<not> glob_match ''a.txt'' ''*.TXT'')"
proof -
  define q where "q = default_criteria\<lparr>use_index := False\<rparr>"
  have n: "name_only q" and u: "\<not> use_index q" and mx: "max_results q = 1000"
    unfolding q_def by (simp_all add: name_only_def default_criteria_def)
  have look: "fs_lookup big_fs ''/big'' = Directory big_tree" by (simp add: big_fs_def)
  have pc: "pending_cancel SearchEngine_init = None" by (simp add: SearchEngine_init_def)
  have nr: "\<forall>p \<in> set (visible_files ''/big'' big_tree). \<not> raises demo_lib big_fs q p"
    unfolding big_visible q_def using big_hit by blast
  obtain rs where rs: "fst (search_files demo_lib big_fs SearchEngine_init ''/big'' q 0) = Inr rs"
    and m: "map path rs = take (nat (max_results q)) (matching_files demo_lib big_fs q ''/big'' big_tree)"
    using search_files_name_only [OF n u look pc nr] by blast
  have "hit demo_lib big_fs q p" if "p \<in> set (visible_files ''/big'' big_tree)" for p
    using that big_hit unfolding big_visible q_def by blast
  then have all: "matching_files demo_lib big_fs q ''/big'' big_tree = visible_files ''/big'' big_tree"
    unfolding matching_files_def by (simp add: filter_id_conv)
  have glob_all: "filter (\<lambda>p. glob_match (basename p) ''*'') xs = xs" for xs
    by (simp add: glob_match_star)
  have len_vis: "length (visible_files ''/big'' big_tree) = 1001"
    by (simp add: big_visible big_files_def)
  have "length (map path rs) = 1000" unfolding m all mx using len_vis by simp
  then have len: "length rs = 1000" by simp
  have card_vis: "card (set (visible_files ''/big'' big_tree)) = 1001"
    using big_distinct len_vis unfolding big_visible by (simp add: distinct_card)
  have "card (path ` set rs) \<le> 1000"
    using card_image_le [of "set rs" path] card_length [of rs] len by simp
  then have "path ` set rs \<noteq> set (visible_files ''/big'' big_tree)" using card_vis by auto
  then have cap: "\<exists>rs. fst (search_files demo_lib big_fs SearchEngine_init ''/big''
               (default_criteria\<lparr>use_index := False\<rparr>) 0) = Inr rs \<and>
         length rs = 1000 \<and>
         card (set (filter (\<lambda>p. glob_match (basename p) ''*'') (visible_files ''/big'' big_tree)))
           = 1001 \<and>
         path ` set rs \<noteq> set (filter (\<lambda>p. glob_match (basename p) ''*'')
                                 (visible_files ''/big'' big_tree))"
    using rs len card_vis unfolding q_def glob_all by blast
  have vis: "filter (\<lambda>p. glob_match (basename p) ''*'') (visible_files ''/root'' demo_tree)
      = [''/root/a.txt'', ''/root/b/sub.py'']"
    unfolding glob_all by (rule demo_visible)
  have up: "\<not> glob_match ''a.txt'' ''*.TXT''" by simp
  show ?thesis
    using cap vis up demo_eval_dangling demo_eval_cancel_first demo_eval_future_0
      demo_eval_regex_overflow demo_eval_upper
    by blast
qed

theorem C3_walk_cancel_counterexample:
  "fst (search_files demo_lib demo_fs (SearchEngine_init\<lparr>pending_cancel := Some 2\<rparr>) ''/root''
         (default_criteria\<lparr>use_index := False\<rparr>) 0)
     = Inr [make_result ''/root/a.txt'' \<lparr>st_size = 5, st_mtime = 100\<rparr> 100 ''filename'' None None] \<and>
   cancel_event (snd (search_files demo_lib demo_fs (SearchEngine_init\<lparr>pending_cancel := Some 2\<rparr>)
         ''/root'' (default_criteria\<lparr>use_index := False\<rparr>) 0))"
  by code_simp

lemma demo_eval_cancel_refresh:
  "cancel_event (update_index demo_fs
       (entry_state (SearchEngine_init\<lparr>pending_cancel := Some 1\<rparr>) ''/root''
          (default_criteria\<lparr>pattern := ''*.txt''\<rparr>) 0)
       ''/root'' False)"
  by code_simp

lemma demo_eval_reached:
  "files_reached demo_fs (SearchEngine_init\<lparr>pending_cancel := Some 2\<rparr>)
     (default_criteria\<lparr>use_index := False\<rparr>) ''/root'' = [''/root/a.txt''] \<and>
   scan_files demo_lib demo_fs (SearchEngine_init\<lparr>pending_cancel := Some 2\<rparr>)
     (default_criteria\<lparr>use_index := False\<rparr>) [] [''/root/a.txt'']
     = Inr [make_result ''/root/a.txt'' \<lparr>st_size = 5, st_mtime = 100\<rparr> 100 ''filename'' None None]"
  by code_simp

lemma demo_eval_full_walk:
  "fst (search_files demo_lib demo_fs (SearchEngine_init\<lparr>pending_cancel := None\<rparr>) ''/root''
         (default_criteria\<lparr>use_index := False\<rparr>) 0)
     = Inr [make_result ''/root/a.txt'' \<lparr>st_size = 5, st_mtime = 100\<rparr> 100 ''filename'' None None,
            make_result ''/root/b/sub.py'' \<lparr>st_size = 0, st_mtime = 50\<rparr> 50 ''filename'' None None]"
  by code_simp

lemma demo_eval_indexed_txt:
  "fst (search_files demo_lib demo_fs SearchEngine_init ''/root''
         (default_criteria\<lparr>pattern := ''*.txt''\<rparr>) 0)
     = Inr [make_result ''/root/a.txt'' \<lparr>st_size = 5, st_mtime = 100\<rparr> 100 ''filename'' None None]"
  by code_simp

theorem C3_cancellation_returns_silently_witness:
  "fst (search_files demo_lib demo_fs (SearchEngine_init\<lparr>pending_cancel := Some 2\<rparr>) ''/root''
         (default_criteria\<lparr>use_index := False\<rparr>) 0)
     = Inr [make_result ''/root/a.txt'' \<lparr>st_size = 5, st_mtime = 100\<rparr> 100 ''filename'' None None] \<and>
   files_reached demo_fs (SearchEngine_init\<lparr>pending_cancel := Some 2\<rparr>)
     (default_criteria\<lparr>use_index := False\<rparr>) ''/root'' = [''/root/a.txt''] \<and>
   fst (search_files demo_lib demo_fs (SearchEngine_init\<lparr>pending_cancel := None\<rparr>) ''/root''
         (default_criteria\<lparr>use_index := False\<rparr>) 0)
     = Inr [make_result ''/root/a.txt'' \<lparr>st_size = 5, st_mtime = 100\<rparr> 100 ''filename'' None None,
            make_result ''/root/b/sub.py'' \<lparr>st_size = 0, st_mtime = 50\<rparr> 50 ''filename'' None None] \<and>
   fst (search_files demo_lib demo_fs (SearchEngine_init\<lparr>pending_cancel := Some 1\<rparr>) ''/root''
          (default_criteria\<lparr>pattern := ''*.txt''\<rparr>) 0) = Inr [] \<and>
   fst (search_files demo_lib demo_fs SearchEngine_init ''/root''
          (default_criteria\<lparr>pattern := ''*.txt''\<rparr>) 0)
     = Inr [make_result ''/root/a.txt'' \<lparr>st_size = 5, st_mtime = 100\<rparr> 100 ''filename'' None None]"
proof -
  define sc where "sc = SearchEngine_init\<lparr>pending_cancel := Some 2\<rparr>"
  define qf where "qf = default_criteria\<lparr>use_index := False\<rparr>"
  define si where "si = SearchEngine_init\<lparr>pending_cancel := Some 1\<rparr>"
  define qi where "qi = default_criteria\<lparr>pattern := ''*.txt''\<rparr>"
  have nf: "\<not> indexed_strategy sc qf" by (simp add: indexed_strategy_def qf_def)
  have ix: "indexed_strategy si qi"
    by (simp add: indexed_strategy_def qi_def si_def default_criteria_def SearchEngine_init_def)
  have pcb: "progress_callback qi = False" by (simp add: qi_def default_criteria_def)
  have "fst (search_files demo_lib demo_fs sc ''/root'' qf 0) =
        walk_outcome (scan_files demo_lib demo_fs sc qf [] (files_reached demo_fs sc qf ''/root''))"
    using C3_cancellation_returns_silently [where fs = demo_fs and root_path = "''/root''"
      and s = sc and lib = demo_lib and q = qf and now = 0] valid_demo_root nf
    by blast
  then have a: "fst (search_files demo_lib demo_fs sc ''/root'' qf 0) =
      Inr [make_result ''/root/a.txt'' \<lparr>st_size = 5, st_mtime = 100\<rparr> 100 ''filename'' None None]"
    using demo_eval_reached unfolding sc_def qf_def by (simp add: walk_outcome_def)
  have "cancel_event (update_index demo_fs (entry_state si ''/root'' qi 0) ''/root''
          (progress_callback qi))"
    unfolding pcb unfolding si_def qi_def by (rule demo_eval_cancel_refresh)
  then have b: "fst (search_files demo_lib demo_fs si ''/root'' qi 0) = Inr []"
    using C3_cancellation_returns_silently [where fs = demo_fs and root_path = "''/root''"
      and s = si and lib = demo_lib and q = qi and now = 0] valid_demo_root ix
    by blast
  show ?thesis
    using a b demo_eval_reached demo_eval_full_walk demo_eval_indexed_txt
    unfolding sc_def qf_def si_def qi_def by blast
qed

section \<open>The fallback on the small file system\<close>

lemma demo_matches:
  "matches_criteria demo_lib demo_fs ''/root/a.txt'' (default_criteria\<lparr>content_search := Some ct\<rparr>)
   = Inr True"
  by (simp add: matches_criteria_def matches_criteria_try_def default_criteria_def match_pattern_def
      demo_defs basename_def lower_def lower_char_def)

lemma demo_eval_fallback:
  "fst (search_files demo_lib demo_fs (SearchEngine_init\<lparr>chunk_size := 4\<rparr>) ''/root''
         (default_criteria\<lparr>content_search := Some ''a.*''\<rparr>) 0)
     = Inr [make_result ''/root/a.txt'' \<lparr>st_size = 5, st_mtime = 100\<rparr> 100 ''filename'' None None] \<and>
   fst (search_files demo_lib demo_fs (SearchEngine_init\<lparr>chunk_size := 4\<rparr>) ''/root''
         (default_criteria\<lparr>content_search := Some ''zzz''\<rparr>) 0) = Inr []"
  by code_simp

theorem C6_filename_fallback_witness:
  "process_file demo_lib demo_fs (SearchEngine_init\<lparr>chunk_size := 4\<rparr>) ''/root/a.txt''
     (default_criteria\<lparr>content_search := Some ''a.*''\<rparr>) [] =
     Inr (True, [make_result ''/root/a.txt'' \<lparr>st_size = 5, st_mtime = 100\<rparr> 100 ''filename'' None None]) \<and>
   fst (search_files demo_lib demo_fs (SearchEngine_init\<lparr>chunk_size := 4\<rparr>) ''/root''
         (default_criteria\<lparr>content_search := Some ''a.*''\<rparr>) 0)
     = Inr [make_result ''/root/a.txt'' \<lparr>st_size = 5, st_mtime = 100\<rparr> 100 ''filename'' None None] \<and>
   process_file demo_lib demo_fs (SearchEngine_init\<lparr>chunk_size := 4\<rparr>) ''/root/a.txt''
     (default_criteria\<lparr>content_search := Some ''zzz''\<rparr>) [] = Inr (False, []) \<and>
   fst (search_files demo_lib demo_fs (SearchEngine_init\<lparr>chunk_size := 4\<rparr>) ''/root''
         (default_criteria\<lparr>content_search := Some ''zzz''\<rparr>) 0) = Inr [] \<and>
   ''/root/a.txt'' \<notin> path ` set ([] :: SearchResult list)"
  using C6_filename_fallback [where lib = demo_lib and fs = demo_fs and file_path = "''/root/a.txt''"
      and q = "default_criteria\<lparr>content_search := Some ''a.*''\<rparr>" and ct = "''a.*''"
      and st = "\<lparr>st_size = 5, st_mtime = 100\<rparr>" and d = 100
      and s = "SearchEngine_init\<lparr>chunk_size := 4\<rparr>" and results = "[]"
      and root_path = "''/root''" and now = 0
      and rs = "[make_result ''/root/a.txt'' \<lparr>st_size = 5, st_mtime = 100\<rparr> 100 ''filename'' None None]"]
    C6_filename_fallback [where lib = demo_lib and fs = demo_fs and file_path = "''/root/a.txt''"
      and q = "default_criteria\<lparr>content_search := Some ''zzz''\<rparr>" and ct = "''zzz''"
      and st = "\<lparr>st_size = 5, st_mtime = 100\<rparr>" and d = 100
      and s = "SearchEngine_init\<lparr>chunk_size := 4\<rparr>" and results = "[]"
      and root_path = "''/root''" and now = 0 and rs = "[]"]
    demo_matches demo_eval_fallback valid_demo_root
  by (simp add: default_criteria_def SearchEngine_init_def content_has_term_def case_adjust_def
      py_in_sublist [symmetric] match_pattern_def demo_defs basename_def lower_def lower_char_def)

lemma demo_eval_wrong_name:
  "fst (search_files demo_lib demo_fs (SearchEngine_init\<lparr>chunk_size := 4\<rparr>) ''/root''
         (default_criteria\<lparr>pattern := ''*.py'', content_search := Some ''a.*''\<rparr>) 0) = Inr []"
  by code_simp

lemma demo_eval_term_overflow:
  "fst (search_files demo_lib demo_fs (SearchEngine_init\<lparr>chunk_size := 4\<rparr>) ''/root''
         (default_criteria\<lparr>pattern := ''a'', regex := True,
            content_search := Some ''a{4294967296}''\<rparr>) 0)
     = Inl (SearchError
         ''Search operation failed: Filesystem search failed: the repetition number is too large'')"
  by code_simp

theorem C6_fallback_counterexample:
  "(fst (search_files demo_lib demo_fs (SearchEngine_init\<lparr>chunk_size := 4\<rparr>) ''/root''
         (default_criteria\<lparr>pattern := ''*.py'', content_search := Some ''a.*''\<rparr>) 0) = Inr [] \<and>
    ''/root/a.txt'' \<in> set (visible_files ''/root'' demo_tree) \<and>
    fs_stat demo_fs ''/root/a.txt'' = Some \<lparr>st_size = 5, st_mtime = 100\<rparr> \<and>
    5 \<le> max_file_size_for_content_search (SearchEngine_init\<lparr>chunk_size := 4\<rparr>) \<and>
    \<not> content_has_term demo_fs ''/root/a.txt'' False ''a.*'' \<and>
    match_pattern demo_lib ''a.txt'' ''a.*'' False False = Inr True) \<and>
   (fst (search_files demo_lib demo_fs (SearchEngine_init\<lparr>chunk_size := 4\<rparr>) ''/root''
         (default_criteria\<lparr>pattern := ''a'', regex := True,
            content_search := Some ''a{4294967296}''\<rparr>) 0)
     = Inl (SearchError
         ''Search operation failed: Filesystem search failed: the repetition number is too large'') \<and>
    \<not> content_has_term demo_fs ''/root/a.txt'' False ''a{4294967296}'')"
  using demo_eval_wrong_name demo_eval_term_overflow demo_visible
  by (simp add: SearchEngine_init_def content_has_term_def case_adjust_def
      py_in_sublist [symmetric] match_pattern_def demo_defs lower_def lower_char_def)

text \<open>
  The scenario of the specification on the small file system: without the index,
  \<open>*.txt\<close> finds \<open>a.txt\<close> only, the hidden directory being pruned; a content search for
  \<open>hello\<close>, reading the file in chunks of 4 characters, finds \<open>a.txt\<close> as a content
  match on line 1.
\<close>

lemma scenario_hidden_directory_pruned:
  "fst (search_files demo_lib demo_fs SearchEngine_init ''/root''
         (default_criteria\<lparr>pattern := ''*.txt'', use_index := False\<rparr>) 0)
   = Inr [make_result ''/root/a.txt'' \<lparr>st_size = 5, st_mtime = 100\<rparr> 100 ''filename'' None None]"
  by code_simp

lemma scenario_content_match:
  "fst (search_files demo_lib demo_fs (SearchEngine_init\<lparr>chunk_size := 4\<rparr>) ''/root''
         (default_criteria\<lparr>content_search := Some ''hello''\<rparr>) 0)
   = Inr [make_result ''/root/a.txt'' \<lparr>st_size = 5, st_mtime = 100\<rparr> 100 ''content''
            (Some ''hello'') (Some 1)]"
  by code_simp

end
